theory Spec2Isabelle
  imports Main "HOL-Library.Word" "HOL-Library.AList"
begin

section \<open>Values, bytes and errors\<close>

text \<open>
  The embedding follows \<^verbatim>\<open>util.py\<close> under Python 3. A byte is an 8-bit word, a \<^verbatim>\<open>bytes\<close>
  object a list of bytes, and a \<^verbatim>\<open>str\<close> a list of code points, so that a string can hold a
  character that latin-1 and ASCII do not have (\<open>str_of\<close> gives the code points of a
  literal). Field names, keywords and type codes are literals of the source and are kept
  as such. The values a field can hold are \<^verbatim>\<open>None\<close>, integers, strings and byte strings.
  An exception is a value of \<open>error\<close>; \<open>OutsideModel\<close> marks the places where Python's
  \<^verbatim>\<open>struct\<close> module encodes a float, a bool or a Pascal string, which the embedding does
  not cover.
\<close>

type_synonym byte = "8 word"

type_synonym pystr = "nat list"

datatype pyval = VNone | VInt int | VStr pystr | VBytes "byte list"

datatype error =
  TypeError | AttributeError | KeyError | StructError | UnicodeEncodeError | OutsideModel

definition str_of :: "string \<Rightarrow> pystr" where
  "str_of s = map of_char s"

fun and_then :: "error + 'a \<Rightarrow> ('a \<Rightarrow> error + 'b) \<Rightarrow> error + 'b" where
  "and_then (Inl e) f = Inl e"
| "and_then (Inr x) f = f x"

section \<open>Functions for lump names and other strings\<close>

definition NUL :: nat where
  "NUL = 0"

definition byte_of_char :: "nat \<Rightarrow> byte" where
  "byte_of_char c = of_nat c"

definition char_of_byte :: "byte \<Rightarrow> nat" where
  "char_of_byte b = unat b"

definition is_latin1 :: "pystr \<Rightarrow> bool" where
  "is_latin1 s = list_all (\<lambda>c. c < 256) s"

text \<open>
  \<^verbatim>\<open>six.b(chars)\<close>: \<^verbatim>\<open>chars.encode("latin-1")\<close>; only a \<^verbatim>\<open>str\<close> has that method, and it raises
  \<^verbatim>\<open>UnicodeEncodeError\<close> on a character that latin-1 does not have.
\<close>

fun six_b :: "pyval \<Rightarrow> error + byte list" where
  "six_b (VStr s) = (if is_latin1 s then Inr (map byte_of_char s) else Inl UnicodeEncodeError)"
| "six_b v = Inl AttributeError"

text \<open>\<^verbatim>\<open>struct.pack('Ns', b)\<close> on one byte string: the first \<open>n\<close> bytes, zero-filled.\<close>

definition pack_s :: "nat \<Rightarrow> byte list \<Rightarrow> byte list" where
  "pack_s n b = take n b @ replicate (n - length b) 0"

definition zpad :: "pyval \<Rightarrow> error + byte list" where
  "zpad chars = and_then (six_b chars) (\<lambda>b. Inr (pack_s 8 b))"

text \<open>\<^verbatim>\<open>bytes.decode('ascii', 'ignore')\<close>: bytes of 128 and above are dropped.\<close>

definition decode_ascii_ignore :: "byte list \<Rightarrow> pystr" where
  "decode_ascii_ignore b = map char_of_byte (filter (\<lambda>x. unat x < 128) b)"

text \<open>\<^verbatim>\<open>chars[:chars.index("\0")]\<close> when a NUL is present, else \<^verbatim>\<open>chars\<close>.\<close>

definition cut_at_nul :: "pystr \<Rightarrow> pystr" where
  "cut_at_nul chars = (if NUL \<in> set chars then takeWhile (\<lambda>c. c \<noteq> NUL) chars else chars)"

fun zstrip :: "pyval \<Rightarrow> error + pyval" where
  "zstrip (VBytes b) = Inr (VStr (cut_at_nul (decode_ascii_ignore b)))"
| "zstrip (VStr s) = Inr (VStr (cut_at_nul s))"
| "zstrip v = Inl TypeError"

section \<open>The part of Python's \<^verbatim>\<open>struct\<close> module the record framework uses\<close>

text \<open>
  \<^verbatim>\<open>Struct("<" + codes)\<close> reads the format in little-endian standard mode: white space is
  skipped, a decimal repeat count may precede a format character, a count with no
  character after it and a character outside the table are errors. The table is the one
  of the standard modes: \<^verbatim>\<open>x c b B ? h H i I l L q Q e f d s p\<close>.
\<close>

datatype kind = KPad | KChar | KInt bool nat | KStr | KBool | KFloat nat | KPascal

type_synonym item = "nat \<times> kind"

definition isspace :: "char \<Rightarrow> bool" where
  "isspace c = (c \<in> set [CHR 0x20, CHR 0x09, CHR 0x0A, CHR 0x0B, CHR 0x0C, CHR 0x0D])"

definition isdigit :: "char \<Rightarrow> bool" where
  "isdigit c = (48 \<le> (of_char c :: nat) \<and> (of_char c :: nat) \<le> 57)"

definition digit_val :: "char \<Rightarrow> nat" where
  "digit_val c = of_char c - 48"

definition entry :: "char \<Rightarrow> kind option" where
  "entry c =
     (if c = CHR ''x'' then Some KPad
      else if c = CHR ''c'' then Some KChar
      else if c = CHR ''b'' then Some (KInt True 1)
      else if c = CHR ''B'' then Some (KInt False 1)
      else if c = CHR ''?'' then Some KBool
      else if c = CHR ''h'' then Some (KInt True 2)
      else if c = CHR ''H'' then Some (KInt False 2)
      else if c = CHR ''i'' then Some (KInt True 4)
      else if c = CHR ''I'' then Some (KInt False 4)
      else if c = CHR ''l'' then Some (KInt True 4)
      else if c = CHR ''L'' then Some (KInt False 4)
      else if c = CHR ''q'' then Some (KInt True 8)
      else if c = CHR ''Q'' then Some (KInt False 8)
      else if c = CHR ''e'' then Some (KFloat 2)
      else if c = CHR ''f'' then Some (KFloat 4)
      else if c = CHR ''d'' then Some (KFloat 8)
      else if c = CHR ''s'' then Some KStr
      else if c = CHR ''p'' then Some KPascal
      else None)"

text \<open>
  The scanner: its first argument is the repeat count read so far, if any. (The pending
  count cannot overflow here; CPython rejects a format whose size exceeds the largest
  \<^verbatim>\<open>ssize_t\<close>.)
\<close>

fun scan :: "nat option \<Rightarrow> string \<Rightarrow> error + item list" where
  "scan None [] = Inr []"
| "scan (Some n) [] = Inl StructError"
| "scan None (c # cs) =
     (if isspace c then scan None cs
      else if isdigit c then scan (Some (digit_val c)) cs
      else (case entry c of
              None \<Rightarrow> Inl StructError
            | Some k \<Rightarrow> and_then (scan None cs) (\<lambda>its. Inr ((1, k) # its))))"
| "scan (Some n) (c # cs) =
     (if isdigit c then scan (Some (10 * n + digit_val c)) cs
      else (case entry c of
              None \<Rightarrow> Inl StructError
            | Some k \<Rightarrow> and_then (scan None cs) (\<lambda>its. Inr ((n, k) # its))))"

text \<open>
  One format item expands to the units that are packed one by one: \<^verbatim>\<open>Nx\<close> is \<open>N\<close> pad
  bytes and takes no value, \<^verbatim>\<open>Ns\<close> is one byte string of \<open>N\<close> bytes, \<^verbatim>\<open>Nh\<close> is \<open>N\<close> values.
  \<open>UOther w\<close> stands for a unit of \<open>w\<close> bytes whose encoding is outside the embedding.
\<close>

datatype fmt_unit = UPad nat | UStr nat | UChar | UInt bool nat | UOther nat

fun units_of :: "item \<Rightarrow> fmt_unit list" where
  "units_of (n, KPad) = [UPad n]"
| "units_of (n, KStr) = [UStr n]"
| "units_of (n, KChar) = replicate n UChar"
| "units_of (n, KInt sg w) = replicate n (UInt sg w)"
| "units_of (n, KBool) = replicate n (UOther 1)"
| "units_of (n, KFloat w) = replicate n (UOther w)"
| "units_of (n, KPascal) = [UOther n]"

definition units :: "item list \<Rightarrow> fmt_unit list" where
  "units its = concat (map units_of its)"

fun usize :: "fmt_unit \<Rightarrow> nat" where
  "usize (UPad n) = n"
| "usize (UStr n) = n"
| "usize UChar = 1"
| "usize (UInt sg w) = w"
| "usize (UOther w) = w"

fun takes_value :: "fmt_unit \<Rightarrow> bool" where
  "takes_value (UPad n) = False"
| "takes_value u = True"

text \<open>\<^verbatim>\<open>Struct.size\<close> and the number of values \<^verbatim>\<open>Struct.pack\<close> expects.\<close>

definition struct_size :: "item list \<Rightarrow> nat" where
  "struct_size its = sum_list (map usize (units its))"

definition struct_len :: "item list \<Rightarrow> nat" where
  "struct_len its = length (filter takes_value (units its))"

text \<open>Little-endian integers of \<open>w\<close> bytes; a negative number in two's complement.\<close>

fun le_bytes :: "nat \<Rightarrow> int \<Rightarrow> byte list" where
  "le_bytes 0 n = []"
| "le_bytes (Suc w) n = word_of_int n # le_bytes w (n div 256)"

fun le_int :: "byte list \<Rightarrow> int" where
  "le_int [] = 0"
| "le_int (b # bs) = uint b + 256 * le_int bs"

definition int_min :: "bool \<Rightarrow> nat \<Rightarrow> int" where
  "int_min sg w = (if sg then - (2 ^ (8 * w - 1)) else 0)"

definition int_max :: "bool \<Rightarrow> nat \<Rightarrow> int" where
  "int_max sg w = (if sg then 2 ^ (8 * w - 1) - 1 else 2 ^ (8 * w) - 1)"

definition decode_int :: "bool \<Rightarrow> byte list \<Rightarrow> int" where
  "decode_int sg bs =
     (let u = le_int bs
      in if sg \<and> 2 ^ (8 * length bs - 1) \<le> u then u - 2 ^ (8 * length bs) else u)"

text \<open>
  Packing one value: every refusal of \<^verbatim>\<open>struct\<close> (a value of the wrong type, an integer
  out of the range of its width) is a \<^verbatim>\<open>struct.error\<close>.
\<close>

fun pack_unit :: "fmt_unit \<Rightarrow> pyval \<Rightarrow> error + byte list" where
  "pack_unit (UStr n) (VBytes b) = Inr (pack_s n b)"
| "pack_unit (UChar) (VBytes b) = (if length b = 1 then Inr b else Inl StructError)"
| "pack_unit (UInt sg w) (VInt n) =
     (if int_min sg w \<le> n \<and> n \<le> int_max sg w then Inr (le_bytes w n) else Inl StructError)"
| "pack_unit (UOther w) v = Inl OutsideModel"
| "pack_unit u v = Inl StructError"

fun pack_units :: "fmt_unit list \<Rightarrow> pyval list \<Rightarrow> error + byte list" where
  "pack_units [] vs = Inr []"
| "pack_units (UPad n # us) vs = and_then (pack_units us vs) (\<lambda>bs. Inr (replicate n 0 @ bs))"
| "pack_units (u # us) [] = Inl StructError"
| "pack_units (u # us) (v # vs) =
     and_then (pack_unit u v) (\<lambda>b. and_then (pack_units us vs) (\<lambda>bs. Inr (b @ bs)))"

definition struct_pack :: "item list \<Rightarrow> pyval list \<Rightarrow> error + byte list" where
  "struct_pack its args =
     (if length args \<noteq> struct_len its then Inl StructError else pack_units (units its) args)"

fun unpack_unit :: "fmt_unit \<Rightarrow> byte list \<Rightarrow> error + pyval" where
  "unpack_unit (UStr n) b = Inr (VBytes b)"
| "unpack_unit UChar b = Inr (VBytes b)"
| "unpack_unit (UInt sg w) b = Inr (VInt (decode_int sg b))"
| "unpack_unit (UOther w) b = Inl OutsideModel"
| "unpack_unit (UPad n) b = Inl StructError"

fun unpack_units :: "fmt_unit list \<Rightarrow> byte list \<Rightarrow> error + pyval list" where
  "unpack_units [] bs = Inr []"
| "unpack_units (UPad n # us) bs = unpack_units us (drop n bs)"
| "unpack_units (u # us) bs =
     and_then (unpack_unit u (take (usize u) bs))
       (\<lambda>v. and_then (unpack_units us (drop (usize u) bs)) (\<lambda>vs. Inr (v # vs)))"

definition struct_unpack :: "item list \<Rightarrow> byte list \<Rightarrow> error + pyval list" where
  "struct_unpack its data =
     (if length data \<noteq> struct_size its then Inl StructError else unpack_units (units its) data)"

section \<open>The metaclass: compiling a field list\<close>

text \<open>
  A field descriptor is the tuple \<^verbatim>\<open>(name, type, value)\<close>; the optional docstring only
  documents the property. The name and the type may be \<^verbatim>\<open>None\<close>. The class that
  \<^verbatim>\<open>StructMeta.__new__\<close> builds keeps \<^verbatim>\<open>__fields__\<close>, \<^verbatim>\<open>_keys\<close> and \<^verbatim>\<open>_struct\<close>; its
  properties are found again from the field list (\<open>prop_of\<close>). Field names are taken to
  differ from the attributes every such class has (\<^verbatim>\<open>pack\<close>, \<^verbatim>\<open>unpack\<close>, \<^verbatim>\<open>size\<close>, ...).
\<close>

type_synonym name = "string option"

record field =
  fname :: name
  ftype :: "string option"
  fdefault :: pyval

record layout =
  cname :: string
  fields_of :: "field list"
  keys :: "name list"
  struct :: "item list"

text \<open>\<^verbatim>\<open>ch in f[1]\<close>: a \<^verbatim>\<open>TypeError\<close> when the type is \<^verbatim>\<open>None\<close>.\<close>

fun char_in :: "char \<Rightarrow> string option \<Rightarrow> error + bool" where
  "char_in ch None = Inl TypeError"
| "char_in ch (Some c) = Inr (ch \<in> set c)"

text \<open>\<^verbatim>\<open>[f[0] for f in fields if 'x' not in f[1]]\<close>\<close>

fun field_keys :: "field list \<Rightarrow> error + name list" where
  "field_keys [] = Inr []"
| "field_keys (f # fs) =
     and_then (char_in (CHR ''x'') (ftype f))
       (\<lambda>x. and_then (field_keys fs) (\<lambda>ks. Inr (if x then ks else fname f # ks)))"

text \<open>\<^verbatim>\<open>"".join(f[1] for f in fields if f[1])\<close>\<close>

fun join_types :: "field list \<Rightarrow> string" where
  "join_types [] = []"
| "join_types (f # fs) = (case ftype f of None \<Rightarrow> join_types fs | Some c \<Rightarrow> c @ join_types fs)"

definition compile :: "string \<Rightarrow> field list \<Rightarrow> error + layout" where
  "compile nm fs =
     and_then (field_keys fs)
       (\<lambda>ks. and_then (scan None (join_types fs))
          (\<lambda>its. Inr \<lparr>cname = nm, fields_of = fs, keys = ks, struct = its\<rparr>))"

definition size_of :: "layout \<Rightarrow> nat" where
  "size_of L = struct_size (struct L)"

text \<open>
  The property registered under a name: the class dictionary keeps the last assignment,
  so it is the one of the last field of that name whose type has no \<^verbatim>\<open>'x'\<close>.
\<close>

fun prop_of :: "field list \<Rightarrow> name \<Rightarrow> field option" where
  "prop_of [] n = None"
| "prop_of (f # fs) n =
     (case prop_of fs n of
        Some g \<Rightarrow> Some g
      | None \<Rightarrow> (if fname f = n \<and> char_in (CHR ''x'') (ftype f) = Inr False then Some f else None))"

section \<open>Record instances\<close>

text \<open>
  An instance is its class and its \<^verbatim>\<open>_values\<close> dictionary, kept as an association list in
  insertion order. A method that can raise after it has changed the instance returns an
  \<open>outcome\<close>: the instance as the call left it, and the exception if one was raised.
\<close>

type_synonym dict = "(name \<times> pyval) list"

record mapstruct =
  cls :: layout
  values_of :: dict

datatype outcome = Ok mapstruct | Raised error mapstruct

fun state_of :: "outcome \<Rightarrow> mapstruct" where
  "state_of (Ok r) = r"
| "state_of (Raised e r) = r"

definition dict_update :: "('k \<times> 'v) list \<Rightarrow> ('k \<times> 'v) list \<Rightarrow> ('k \<times> 'v) list" where
  "dict_update d kvs = fold (\<lambda>(k, v). AList.update k v) kvs d"

definition dict_of :: "('k \<times> 'v) list \<Rightarrow> ('k \<times> 'v) list" where
  "dict_of kvs = dict_update [] kvs"

definition default_values :: "field list \<Rightarrow> dict" where
  "default_values fs = dict_of (map (\<lambda>f. (fname f, fdefault f)) fs)"

text \<open>
  \<^verbatim>\<open>StructMeta._get(f)\<close> and \<^verbatim>\<open>StructMeta._set(f)\<close>: the getter reads \<^verbatim>\<open>self._values[f[0]]\<close>;
  the setter stores the value, after \<open>zstrip\<close> when the type of the field has an \<^verbatim>\<open>'s'\<close>.
  \<open>set_value\<close> is the value the setter stores.
\<close>

definition get_prop :: "field \<Rightarrow> mapstruct \<Rightarrow> error + pyval" where
  "get_prop f r = (case map_of (values_of r) (fname f) of None \<Rightarrow> Inl KeyError | Some v \<Rightarrow> Inr v)"

definition set_value :: "field \<Rightarrow> pyval \<Rightarrow> error + pyval" where
  "set_value f v = and_then (char_in (CHR ''s'') (ftype f)) (\<lambda>s. if s then zstrip v else Inr v)"

definition set_prop :: "field \<Rightarrow> mapstruct \<Rightarrow> pyval \<Rightarrow> outcome" where
  "set_prop f r v =
     (case set_value f v of
        Inl e \<Rightarrow> Raised e r
      | Inr w \<Rightarrow> Ok (r\<lparr>values_of := AList.update (fname f) w (values_of r)\<rparr>))"

text \<open>
  \<^verbatim>\<open>getattr(self, name)\<close> and \<^verbatim>\<open>setattr(self, name, value)\<close> go through the property of
  that name. A name that is not a string is a \<^verbatim>\<open>TypeError\<close>; reading a name without a
  property is an \<^verbatim>\<open>AttributeError\<close>; assigning to one makes a plain attribute and leaves
  \<^verbatim>\<open>_values\<close> alone.
\<close>

definition getattr :: "mapstruct \<Rightarrow> name \<Rightarrow> error + pyval" where
  "getattr r n =
     (case n of
        None \<Rightarrow> Inl TypeError
      | Some a \<Rightarrow>
          (case prop_of (fields_of (cls r)) n of
             None \<Rightarrow> Inl AttributeError
           | Some f \<Rightarrow> get_prop f r))"

definition setattr :: "mapstruct \<Rightarrow> name \<Rightarrow> pyval \<Rightarrow> outcome" where
  "setattr r n v =
     (case n of
        None \<Rightarrow> Raised TypeError r
      | Some a \<Rightarrow>
          (case prop_of (fields_of (cls r)) n of
             None \<Rightarrow> Ok r
           | Some f \<Rightarrow> set_prop f r v))"

text \<open>\<^verbatim>\<open>for key, value in pairs: setattr(self, key, value)\<close>\<close>

fun set_all :: "mapstruct \<Rightarrow> (name \<times> pyval) list \<Rightarrow> outcome" where
  "set_all r [] = Ok r"
| "set_all r ((k, v) # kvs) =
     (case setattr r k v of Raised e r' \<Rightarrow> Raised e r' | Ok r' \<Rightarrow> set_all r' kvs)"

definition unpack :: "mapstruct \<Rightarrow> byte list \<Rightarrow> outcome" where
  "unpack r data =
     (case struct_unpack (struct (cls r)) data of
        Inl e \<Rightarrow> Raised e r
      | Inr vals \<Rightarrow> set_all r (zip (keys (cls r)) vals))"

fun pack_args :: "mapstruct \<Rightarrow> field list \<Rightarrow> error + pyval list" where
  "pack_args r [] = Inr []"
| "pack_args r (f # fs) =
     and_then (char_in (CHR ''s'') (ftype f))
       (\<lambda>s. if s then
               and_then (getattr r (fname f))
                 (\<lambda>v. and_then (zpad v)
                    (\<lambda>b. and_then (pack_args r fs) (\<lambda>vs. Inr (VBytes b # vs))))
             else if fname f \<in> set (keys (cls r)) then
               and_then (getattr r (fname f))
                 (\<lambda>v. and_then (pack_args r fs) (\<lambda>vs. Inr (v # vs)))
             else pack_args r fs)"

definition pack :: "mapstruct \<Rightarrow> error + byte list" where
  "pack r = and_then (pack_args r (fields_of (cls r))) (struct_pack (struct (cls r)))"

text \<open>
  \<^verbatim>\<open>__init__(self, *args, **kwargs)\<close>; the keyword arguments are a dictionary, that is an
  association list with distinct keys.
\<close>

definition init :: "layout \<Rightarrow> pyval list \<Rightarrow> (string \<times> pyval) list \<Rightarrow> outcome" where
  "init L args kwargs =
     (let r = \<lparr>cls = L, values_of = default_values (fields_of L)\<rparr>
      in case map_of kwargs ''bytes'' of
           Some d \<Rightarrow> (case d of VBytes b \<Rightarrow> unpack r b | _ \<Rightarrow> Raised TypeError r)
         | None \<Rightarrow>
             (let vals = dict_update (dict_of (zip (keys L) args))
                           (map (\<lambda>(k, v). (Some k, v)) kwargs)
              in set_all r (filter (\<lambda>(k, v). k \<in> set (keys L)) vals)))"

text \<open>Dictionary equality: the same keys with the same values, in any order.\<close>

definition dict_eq :: "dict \<Rightarrow> dict \<Rightarrow> bool" where
  "dict_eq a b = (length a = length b \<and> list_all (\<lambda>(k, v). map_of b k = Some v) a)"

text \<open>\<^verbatim>\<open>__eq__\<close>: \<^verbatim>\<open>isinstance(other, self.__class__) and self._values == other._values\<close>\<close>

definition eq_inst :: "mapstruct \<Rightarrow> mapstruct \<Rightarrow> bool" where
  "eq_inst r other = (cls other = cls r \<and> dict_eq (values_of r) (values_of other))"

subsection \<open>The textual form\<close>

text \<open>
  \<^verbatim>\<open>"{0}={1}".format(name, value)\<close> writes both with \<^verbatim>\<open>str\<close>: \<^verbatim>\<open>None\<close> as \<^verbatim>\<open>None\<close>, an
  integer in decimal, a string as it is and a byte string as its \<^verbatim>\<open>repr\<close>.
\<close>

definition BACKSLASH :: char where
  "BACKSLASH = CHR 0x5C"

definition digit_char :: "nat \<Rightarrow> char" where
  "digit_char d = char_of (48 + d)"

function str_nat :: "nat \<Rightarrow> string" where
  "str_nat n = (if n < 10 then [digit_char n] else str_nat (n div 10) @ [digit_char (n mod 10)])"
  by pat_completeness auto
termination
  by (relation "measure id") auto

declare str_nat.simps [simp del]

definition str_int :: "int \<Rightarrow> string" where
  "str_int i = (if i < 0 then CHR ''-'' # str_nat (nat (- i)) else str_nat (nat i))"

definition hex_char :: "nat \<Rightarrow> char" where
  "hex_char d = (if d < 10 then char_of (48 + d) else char_of (87 + d))"

definition repr_byte :: "char \<Rightarrow> byte \<Rightarrow> string" where
  "repr_byte q b =
     (let n = unat b; c = char_of n
      in if c = q \<or> c = BACKSLASH then [BACKSLASH, c]
         else if n = 9 then [BACKSLASH, CHR ''t'']
         else if n = 10 then [BACKSLASH, CHR ''n'']
         else if n = 13 then [BACKSLASH, CHR ''r'']
         else if n < 32 \<or> 127 \<le> n then [BACKSLASH, CHR ''x'', hex_char (n div 16), hex_char (n mod 16)]
         else [c])"

definition repr_bytes :: "byte list \<Rightarrow> string" where
  "repr_bytes b =
     (let cs = map (\<lambda>x. char_of (unat x)) b;
          q = (if CHR 0x27 \<in> set cs \<and> CHR 0x22 \<notin> set cs then CHR 0x22 else CHR 0x27)
      in CHR ''b'' # q # concat (map (repr_byte q) b) @ [q])"

fun py_str :: "pyval \<Rightarrow> pystr" where
  "py_str VNone = str_of ''None''"
| "py_str (VInt i) = str_of (str_int i)"
| "py_str (VStr s) = s"
| "py_str (VBytes b) = str_of (repr_bytes b)"

fun name_str :: "name \<Rightarrow> pystr" where
  "name_str None = str_of ''None''"
| "name_str (Some s) = str_of s"

fun join :: "'a list \<Rightarrow> 'a list list \<Rightarrow> 'a list" where
  "join sep [] = []"
| "join sep [x] = x"
| "join sep (x # y # ys) = x @ sep @ join sep (y # ys)"

text \<open>One \<^verbatim>\<open>name=value\<close> entry for every element of \<^verbatim>\<open>__fields__\<close>.\<close>

fun str_entries :: "dict \<Rightarrow> field list \<Rightarrow> error + pystr list" where
  "str_entries d [] = Inr []"
| "str_entries d (f # fs) =
     (case map_of d (fname f) of
        None \<Rightarrow> Inl KeyError
      | Some v \<Rightarrow>
          and_then (str_entries d fs) (\<lambda>es. Inr ((name_str (fname f) @ str_of ''='' @ py_str v) # es)))"

definition str_inst :: "mapstruct \<Rightarrow> error + pystr" where
  "str_inst r =
     and_then (str_entries (values_of r) (fields_of (cls r))) (\<lambda>es. Inr (join (str_of '', '') es))"

section \<open>Predicates used to state the properties\<close>

definition is_ascii :: "pystr \<Rightarrow> bool" where
  "is_ascii s = list_all (\<lambda>c. c < 128) s"

text \<open>
  The field lists of the spec's data model: every type code is one format unit, either
  pad bytes (\<^verbatim>\<open>x\<close>, \<^verbatim>\<open>Nx\<close>), a string of a declared width (\<^verbatim>\<open>Ns\<close>) or one integer; a field has
  a name, one that hides no attribute of the class, unless it is a filler; the names of the
  fields that are not fillers are distinct, and no filler carries the name of one of them.
\<close>

definition is_filler :: "field \<Rightarrow> bool" where
  "is_filler f = (char_in (CHR ''x'') (ftype f) = Inr True)"

definition is_string :: "field \<Rightarrow> bool" where
  "is_string f = (char_in (CHR ''s'') (ftype f) = Inr True)"

definition field_items :: "field \<Rightarrow> item list" where
  "field_items f =
     (case ftype f of
        None \<Rightarrow> []
      | Some c \<Rightarrow> (case scan None c of Inl e \<Rightarrow> [] | Inr its \<Rightarrow> its))"

fun simple_item :: "item \<Rightarrow> bool" where
  "simple_item (n, KPad) = True"
| "simple_item (n, KStr) = True"
| "simple_item (n, KInt sg w) = (n = 1)"
| "simple_item (n, k) = False"

text \<open>
  The names a field that is not a filler cannot take without hiding an attribute of the
  class: the methods of \<^verbatim>\<open>MapStruct\<close> and the names that start with an underscore (the
  empty name is left out as well).
\<close>

fun reserved :: "string \<Rightarrow> bool" where
  "reserved [] = True"
| "reserved (c # cs) =
     (c = CHR ''_'' \<or> c # cs = ''pack'' \<or> c # cs = ''unpack'' \<or> c # cs = ''size'')"

fun usable_name :: "name \<Rightarrow> bool" where
  "usable_name None = False"
| "usable_name (Some a) = (\<not> reserved a)"

definition wf_field :: "field \<Rightarrow> bool" where
  "wf_field f =
     (case ftype f of
        None \<Rightarrow> False
      | Some c \<Rightarrow>
          (case scan None c of
             Inr [it] \<Rightarrow> simple_item it \<and> (snd it = KPad \<or> usable_name (fname f))
           | _ \<Rightarrow> False))"

definition stored_fields :: "field list \<Rightarrow> field list" where
  "stored_fields fs = filter (\<lambda>f. \<not> is_filler f) fs"

definition wf_fields :: "field list \<Rightarrow> bool" where
  "wf_fields fs =
     (list_all wf_field fs \<and>
      distinct (map fname (stored_fields fs)) \<and>
      list_all (\<lambda>f. fname f \<notin> set (map fname (stored_fields fs))) (filter is_filler fs))"

text \<open>The record type of the examples: a 4-byte string, a signed short and two pad bytes.\<close>

definition ex_fields :: "field list" where
  "ex_fields =
     [\<lparr>fname = Some ''id'', ftype = Some ''4s'', fdefault = VStr []\<rparr>,
      \<lparr>fname = Some ''count'', ftype = Some ''h'', fdefault = VInt 0\<rparr>,
      \<lparr>fname = None, ftype = Some ''2x'', fdefault = VNone\<rparr>]"

definition ex_layout :: layout where
  "ex_layout =
     \<lparr>cname = ''Thing'', fields_of = ex_fields, keys = [Some ''id'', Some ''count''],
      struct = [(4, KStr), (1, KInt True 2), (2, KPad)]\<rparr>"

text \<open>The unit a field of the data model contributes to the compiled format.\<close>

definition funit :: "field \<Rightarrow> fmt_unit" where
  "funit f = (case units (field_items f) of [] \<Rightarrow> UPad 0 | u # us \<Rightarrow> u)"

text \<open>What \<^verbatim>\<open>Struct.unpack\<close> yields for a field: bytes for a string, an integer otherwise.\<close>

fun is_bytes :: "pyval \<Rightarrow> bool" where
  "is_bytes (VBytes b) = True"
| "is_bytes v = False"

fun is_int :: "pyval \<Rightarrow> bool" where
  "is_int (VInt i) = True"
| "is_int v = False"

definition decoded_for :: "field \<Rightarrow> pyval \<Rightarrow> bool" where
  "decoded_for f v = (if is_string f then is_bytes v else is_int v)"

text \<open>
  The value the arguments of the constructor give to the \<open>i\<close>-th field that is not a
  filler, named \<open>a\<close>: the keyword argument \<open>a\<close> when there is one, else the \<open>i\<close>-th positional
  argument when there is one.
\<close>

definition assigned :: "pyval list \<Rightarrow> (string \<times> pyval) list \<Rightarrow> nat \<Rightarrow> string \<Rightarrow> pyval option" where
  "assigned args kwargs i a =
     (case map_of kwargs a of
        Some v \<Rightarrow> Some v
      | None \<Rightarrow> (if i < length args then Some (args ! i) else None))"

text \<open>
  The invariant on the value mapping: the value stored for a string-typed field has no NUL
  (a value that is neither a string nor a byte string has none).
\<close>

fun nul_free :: "pyval \<Rightarrow> bool" where
  "nul_free (VStr s) = (NUL \<notin> set s)"
| "nul_free (VBytes b) = (0 \<notin> set b)"
| "nul_free v = True"

definition strings_nul_free :: "field list \<Rightarrow> dict \<Rightarrow> bool" where
  "strings_nul_free fs d =
     list_all (\<lambda>f. is_string f \<longrightarrow>
                 (case map_of d (fname f) of None \<Rightarrow> True | Some v \<Rightarrow> nul_free v)) fs"

definition defaults_nul_free :: "field list \<Rightarrow> bool" where
  "defaults_nul_free fs = list_all (\<lambda>f. is_string f \<longrightarrow> nul_free (fdefault f)) fs"

text \<open>
  A string value survives \<open>pack\<close> and \<open>unpack\<close> when it is ASCII, has no NUL and is no longer
  than the 8 bytes of \<open>zpad\<close> and than the declared width of its field.
\<close>

definition fits :: "field \<Rightarrow> dict \<Rightarrow> bool" where
  "fits f d =
     (case map_of d (fname f) of
        Some (VStr s) \<Rightarrow>
          is_ascii s \<and> NUL \<notin> set s \<and> length s \<le> 8 \<and> length s \<le> usize (funit f)
      | _ \<Rightarrow> False)"

definition strings_fit :: "field list \<Rightarrow> dict \<Rightarrow> bool" where
  "strings_fit fs d = list_all (\<lambda>f. is_string f \<longrightarrow> fits f d) fs"

section \<open>Properties of the string functions\<close>

lemma char_of_byte_of_char [simp]: "c < 256 \<Longrightarrow> char_of_byte (byte_of_char c) = c"
  by (simp add: char_of_byte_def byte_of_char_def unat_of_nat)

lemma char_of_byte_0 [simp]: "char_of_byte 0 = NUL"
  by (simp add: char_of_byte_def NUL_def)

lemma ascii_latin1: "is_ascii s \<Longrightarrow> is_latin1 s"
  by (auto simp: is_ascii_def is_latin1_def list_all_iff)

lemma decode_ascii_append:
  "decode_ascii_ignore (a @ b) = decode_ascii_ignore a @ decode_ascii_ignore b"
  by (simp add: decode_ascii_ignore_def)

lemma decode_ascii_zeros: "decode_ascii_ignore (replicate k 0) = replicate k NUL"
  by (induction k) (simp_all add: decode_ascii_ignore_def)

lemma decode_ascii_encode:
  "is_ascii s \<Longrightarrow> decode_ascii_ignore (map byte_of_char s) = s"
proof (induction s)
  case Nil
  then show ?case by (simp add: decode_ascii_ignore_def)
next
  case (Cons c s)
  then have c: "c < 128" and s: "is_ascii s" by (simp_all add: is_ascii_def)
  from c have "unat (byte_of_char c) = c" by (simp add: byte_of_char_def unat_of_nat)
  with c Cons.IH [OF s] show ?case
    by (simp add: decode_ascii_ignore_def char_of_byte_def)
qed

lemma cut_at_nul_padded:
  "NUL \<notin> set s \<Longrightarrow> cut_at_nul (s @ replicate k NUL) = s"
  by (cases k) (auto simp: cut_at_nul_def takeWhile_tail)

lemma zstrip_padded:
  "is_ascii s \<Longrightarrow> NUL \<notin> set s \<Longrightarrow>
   zstrip (VBytes (map byte_of_char s @ replicate k 0)) = Inr (VStr s)"
  by (simp add: decode_ascii_append decode_ascii_zeros decode_ascii_encode cut_at_nul_padded)

lemma zpad_VStr:
  "is_latin1 s \<Longrightarrow>
   zpad (VStr s) = Inr (map byte_of_char (take 8 s) @ replicate (8 - length s) 0)"
  by (simp add: zpad_def pack_s_def take_map)

lemma zpad_wide: "\<not> is_latin1 s \<Longrightarrow> zpad (VStr s) = Inl UnicodeEncodeError"
  by (simp add: zpad_def)

text \<open>
  C5 as the spec states it: packing a string longer than 8 truncates it, packing a shorter
  one pads it, and for every string \<open>s\<close> of at most 8 characters, stripping the padded
  string gives \<open>s\<close> back. It fails for a string that ends in a NUL (the stripped result is
  cut at the first NUL), for a string with a character outside ASCII (the lossy decoding
  drops its byte), and for a string with a character above U+00FF, here the euro sign,
  which \<open>zpad\<close> does not pack at all: the latin-1 encoding raises.
\<close>

theorem zpad_zstrip_counterexample:
  "length [65, 0 :: nat] \<le> 8 \<and>
   zpad (VStr [65, 0]) = Inr [65, 0, 0, 0, 0, 0, 0, 0] \<and>
   zstrip (VBytes [65, 0, 0, 0, 0, 0, 0, 0]) = Inr (VStr [65]) \<and>
   [65] \<noteq> [65, 0 :: nat] \<and>
   length [233 :: nat] \<le> 8 \<and>
   zpad (VStr [233]) = Inr [233, 0, 0, 0, 0, 0, 0, 0] \<and>
   zstrip (VBytes [233, 0, 0, 0, 0, 0, 0, 0]) = Inr (VStr []) \<and>
   [] \<noteq> [233 :: nat] \<and>
   length [8364 :: nat] \<le> 8 \<and>
   zpad (VStr [8364]) = Inl UnicodeEncodeError"
  by code_simp

text \<open>
  C5, amended: \<open>zpad\<close> of a string whose characters are all at most U+00FF is always 8
  bytes, the first 8 characters of the string followed by zero bytes when it is shorter;
  \<open>zpad\<close> of a string with a character above U+00FF raises \<^verbatim>\<open>UnicodeEncodeError\<close>; and for
  every ASCII string \<open>s\<close> of at most 8 characters that contains no NUL, \<open>zpad\<close> returns bytes
  and \<open>zstrip\<close> of them is \<open>s\<close>.
\<close>

theorem zpad_zstrip_contract:
  "(is_latin1 s \<longrightarrow>
      zpad (VStr s) = Inr (map byte_of_char (take 8 s) @ replicate (8 - length s) 0) \<and>
      length (map byte_of_char (take 8 s) @ replicate (8 - length s) 0) = 8) \<and>
   (\<not> is_latin1 s \<longrightarrow> zpad (VStr s) = Inl UnicodeEncodeError) \<and>
   (length s \<le> 8 \<and> is_ascii s \<and> NUL \<notin> set s \<longrightarrow>
      zpad (VStr s) = Inr (map byte_of_char (take 8 s) @ replicate (8 - length s) 0) \<and>
      zstrip (VBytes (map byte_of_char (take 8 s) @ replicate (8 - length s) 0)) = Inr (VStr s))"
  using zstrip_padded [of s "8 - length s"] ascii_latin1 [of s]
  by (auto simp: zpad_VStr zpad_wide)

theorem zpad_zstrip_contract_witness:
  "zpad (VStr (str_of ''E1M1'')) = Inr [69, 49, 77, 49, 0, 0, 0, 0] \<and>
   zstrip (VBytes [69, 49, 77, 49, 0, 0, 0, 0]) = Inr (VStr (str_of ''E1M1'')) \<and>
   zpad (VStr (str_of ''TOOLONGNAME'')) = Inr [84, 79, 79, 76, 79, 78, 71, 78] \<and>
   zpad (VStr [8364]) = Inl UnicodeEncodeError"
proof -
  let ?s = "str_of ''E1M1''"
  let ?t = "str_of ''TOOLONGNAME''"
  have h: "length ?s \<le> 8 \<and> is_ascii ?s \<and> NUL \<notin> set ?s"
    by code_simp
  have e: "map byte_of_char (take 8 ?s) @ replicate (8 - length ?s) 0
             = [69, 49, 77, 49, 0, 0, 0, 0]"
    by code_simp
  have l: "is_latin1 ?t" by code_simp
  have t: "map byte_of_char (take 8 ?t) @ replicate (8 - length ?t) 0
             = [84, 79, 79, 76, 79, 78, 71, 78]"
    by code_simp
  have w: "\<not> is_latin1 [8364]" by code_simp
  from zpad_zstrip_contract [of ?s] h e have a:
    "zpad (VStr ?s) = Inr [69, 49, 77, 49, 0, 0, 0, 0]"
    "zstrip (VBytes [69, 49, 77, 49, 0, 0, 0, 0]) = Inr (VStr ?s)"
    by simp_all
  from zpad_zstrip_contract [of ?t] l t have b:
    "zpad (VStr ?t) = Inr [84, 79, 79, 76, 79, 78, 71, 78]"
    by simp
  from zpad_zstrip_contract [of "[8364]"] w have c: "zpad (VStr [8364]) = Inl UnicodeEncodeError"
    by blast
  from a b c show ?thesis by simp
qed

section \<open>Properties of \<open>unpack\<close>\<close>

text \<open>
  C9: when \<open>unpack\<close> is given a buffer whose length differs from the size of the type, the
  \<^verbatim>\<open>struct.error\<close> is raised before any setter runs: the instance, and so its value
  mapping, is the one before the call.
\<close>

theorem unpack_wrong_size_atomic:
  "length data \<noteq> size_of (cls r) \<Longrightarrow> unpack r data = Raised StructError r"
  by (simp add: unpack_def struct_unpack_def size_of_def)

theorem unpack_wrong_size_atomic_witness:
  "length [1, 2, 3 :: byte] \<noteq> size_of ex_layout \<and>
   unpack \<lparr>cls = ex_layout, values_of = default_values ex_fields\<rparr> [1, 2, 3]
     = Raised StructError \<lparr>cls = ex_layout, values_of = default_values ex_fields\<rparr>"
proof -
  have h: "length [1, 2, 3 :: byte] \<noteq> size_of (cls \<lparr>cls = ex_layout, values_of = default_values ex_fields\<rparr>)"
    by code_simp
  from unpack_wrong_size_atomic [OF h] h show ?thesis by simp
qed

section \<open>Properties of \<open>pack\<close>\<close>

lemma length_le_bytes [simp]: "length (le_bytes w n) = w"
  by (induction w arbitrary: n) simp_all

lemma length_pack_s [simp]: "length (pack_s n b) = n"
  by (simp add: pack_s_def)

lemma pack_unit_length: "pack_unit u v = Inr b \<Longrightarrow> length b = usize u"
  by (cases "(u, v)" rule: pack_unit.cases) (auto split: if_splits)

lemma and_then_Inr_iff:
  "and_then m f = Inr y \<longleftrightarrow> (\<exists>x. m = Inr x \<and> f x = Inr y)"
  by (cases m) simp_all

lemma pack_units_length:
  "pack_units us vs = Inr bs \<Longrightarrow> length bs = sum_list (map usize us)"
proof (induction us arbitrary: vs bs)
  case Nil
  then show ?case by simp
next
  case (Cons u us)
  show ?case
  proof (cases u)
    case (UPad n)
    with Cons show ?thesis by (auto simp: and_then_Inr_iff)
  next
    case (UStr n)
    with Cons show ?thesis
      by (cases vs) (auto simp: and_then_Inr_iff dest: pack_unit_length)
  next
    case UChar
    with Cons show ?thesis
      by (cases vs) (auto simp: and_then_Inr_iff dest: pack_unit_length)
  next
    case (UInt sg w)
    with Cons show ?thesis
      by (cases vs) (auto simp: and_then_Inr_iff dest: pack_unit_length)
  next
    case (UOther w)
    with Cons show ?thesis
      by (cases vs) (auto simp: and_then_Inr_iff)
  qed
qed

text \<open>
  C4: whenever \<open>pack\<close> returns a buffer, its length is the size of the type, whatever the
  field values are: a string value is cut or zero-filled to its declared width.
\<close>

theorem pack_length: "pack r = Inr bs \<Longrightarrow> length bs = size_of (cls r)"
  by (auto simp: pack_def struct_pack_def size_of_def struct_size_def and_then_Inr_iff
           dest: pack_units_length split: if_splits)

theorem pack_length_witness:
  "pack \<lparr>cls = ex_layout,
          values_of = [(Some ''id'', VStr (str_of ''TOOLONGNAME'')), (Some ''count'', VInt 5), (None, VNone)]\<rparr>
     = Inr [84, 79, 79, 76, 5, 0, 0, 0] \<and>
   length [84, 79, 79, 76, 5, 0, 0, 0 :: byte] = size_of ex_layout"
proof -
  have h: "pack \<lparr>cls = ex_layout,
                values_of = [(Some ''id'', VStr (str_of ''TOOLONGNAME'')), (Some ''count'', VInt 5), (None, VNone)]\<rparr>
             = Inr [84, 79, 79, 76, 5, 0, 0, 0]"
    by code_simp
  from pack_length [OF h] h show ?thesis by simp
qed

section \<open>Properties of schema compilation\<close>

lemma and_then_Inl_iff:
  "and_then m f = Inl e \<longleftrightarrow> m = Inl e \<or> (\<exists>x. m = Inr x \<and> f x = Inl e)"
  by (cases m) simp_all

lemma scan_bad_char:
  "ch \<in> set s \<Longrightarrow> \<not> isspace ch \<Longrightarrow> \<not> isdigit ch \<Longrightarrow> entry ch = None \<Longrightarrow>
   scan st s = Inl StructError"
proof (induction s arbitrary: st)
  case Nil
  then show ?case by simp
next
  case (Cons c cs)
  show ?case
  proof (cases "c = ch")
    case True
    with Cons.prems show ?thesis by (cases st) simp_all
  next
    case False
    with Cons.prems have "ch \<in> set cs" by simp
    then have rest: "\<And>st'. scan st' cs = Inl StructError"
      using Cons.IH Cons.prems by blast
    show ?thesis by (cases st) (simp_all add: rest split: option.splits)
  qed
qed

lemma field_keys_None:
  "f \<in> set fs \<Longrightarrow> ftype f = None \<Longrightarrow> field_keys fs = Inl TypeError"
proof (induction fs)
  case Nil
  then show ?case by simp
next
  case (Cons g fs)
  then show ?case
    by (cases "ftype g"; cases "field_keys fs") auto
qed

lemma field_keys_typed:
  "\<forall>f\<in>set fs. ftype f \<noteq> None \<Longrightarrow> \<exists>ks. field_keys fs = Inr ks"
  by (induction fs) auto

lemma set_join_types:
  "f \<in> set fs \<Longrightarrow> ftype f = Some c \<Longrightarrow> set c \<subseteq> set (join_types fs)"
  by (induction fs) (auto split: option.splits)

text \<open>
  C2 at the failing input: a field list with a virtual field, whose type is \<^verbatim>\<open>None\<close>. The
  test \<^verbatim>\<open>'x' not in f[1]\<close> of the metaclass raises a \<^verbatim>\<open>TypeError\<close>, so the class is not
  created.
\<close>

theorem virtual_field_compile_fails:
  "compile ''Thing''
     [\<lparr>fname = Some ''id'', ftype = Some ''4s'', fdefault = VStr []\<rparr>,
      \<lparr>fname = Some ''tag'', ftype = None, fdefault = VInt 0\<rparr>] = Inl TypeError"
  by code_simp

text \<open>
  C8 as the spec states it: a field list with a malformed type code fails when the type is
  compiled, never at \<open>pack\<close>. The type code \<^verbatim>\<open>4\<close> is malformed (a repeat count without a
  format character), but the codes are joined before they are read, and \<^verbatim>\<open>4\<close> followed
  by \<^verbatim>\<open>h\<close> is the valid format \<^verbatim>\<open>4h\<close>: the class is created, and \<open>pack\<close> of an instance
  fails, as two values are given for four.
\<close>

theorem malformed_code_counterexample:
  "scan None ''4'' = Inl StructError \<and>
   compile ''Pair''
     [\<lparr>fname = Some ''a'', ftype = Some ''4'', fdefault = VInt 0\<rparr>,
      \<lparr>fname = Some ''b'', ftype = Some ''h'', fdefault = VInt 0\<rparr>]
     = Inr \<lparr>cname = ''Pair'',
            fields_of = [\<lparr>fname = Some ''a'', ftype = Some ''4'', fdefault = VInt 0\<rparr>,
                         \<lparr>fname = Some ''b'', ftype = Some ''h'', fdefault = VInt 0\<rparr>],
            keys = [Some ''a'', Some ''b''], struct = [(4, KInt True 2)]\<rparr> \<and>
   init \<lparr>cname = ''Pair'',
         fields_of = [\<lparr>fname = Some ''a'', ftype = Some ''4'', fdefault = VInt 0\<rparr>,
                      \<lparr>fname = Some ''b'', ftype = Some ''h'', fdefault = VInt 0\<rparr>],
         keys = [Some ''a'', Some ''b''], struct = [(4, KInt True 2)]\<rparr> [VInt 1, VInt 2] []
     = Ok \<lparr>cls = \<lparr>cname = ''Pair'',
                   fields_of = [\<lparr>fname = Some ''a'', ftype = Some ''4'', fdefault = VInt 0\<rparr>,
                                \<lparr>fname = Some ''b'', ftype = Some ''h'', fdefault = VInt 0\<rparr>],
                   keys = [Some ''a'', Some ''b''], struct = [(4, KInt True 2)]\<rparr>,
           values_of = [(Some ''a'', VInt 1), (Some ''b'', VInt 2)]\<rparr> \<and>
   pack \<lparr>cls = \<lparr>cname = ''Pair'',
                fields_of = [\<lparr>fname = Some ''a'', ftype = Some ''4'', fdefault = VInt 0\<rparr>,
                             \<lparr>fname = Some ''b'', ftype = Some ''h'', fdefault = VInt 0\<rparr>],
                keys = [Some ''a'', Some ''b''], struct = [(4, KInt True 2)]\<rparr>,
         values_of = [(Some ''a'', VInt 1), (Some ''b'', VInt 2)]\<rparr> = Inl StructError"
  by code_simp

text \<open>
  C8, amended: a type code with a character that the format language does not have (not a
  format character, a digit or white space) makes the compilation of the field list fail,
  and so does any field list whose joined type codes are not a valid format; no class, and
  no instance to pack or unpack, exists then. (A code that is malformed only when read alone
  is not detected.)
\<close>

theorem bad_type_code_fails_at_compile:
  "(f \<in> set fs \<and> ftype f = Some c \<and> ch \<in> set c \<and>
      \<not> isspace ch \<and> \<not> isdigit ch \<and> entry ch = None
      \<longrightarrow> (\<exists>e. compile nm fs = Inl e)) \<and>
   (scan None (join_types fs) = Inl e' \<longrightarrow> (\<exists>e. compile nm fs = Inl e))"
proof (intro conjI impI)
  assume a: "f \<in> set fs \<and> ftype f = Some c \<and> ch \<in> set c \<and>
      \<not> isspace ch \<and> \<not> isdigit ch \<and> entry ch = None"
  then have "ch \<in> set (join_types fs)"
    using set_join_types by blast
  with a have "scan None (join_types fs) = Inl StructError"
    by (simp add: scan_bad_char)
  then show "\<exists>e. compile nm fs = Inl e"
    by (cases "field_keys fs") (simp_all add: compile_def)
next
  assume "scan None (join_types fs) = Inl e'"
  then show "\<exists>e. compile nm fs = Inl e"
    by (cases "field_keys fs") (simp_all add: compile_def)
qed

theorem bad_type_code_fails_at_compile_witness:
  "compile ''Thing''
     [\<lparr>fname = Some ''id'', ftype = Some ''4s'', fdefault = VStr []\<rparr>,
      \<lparr>fname = Some ''count'', ftype = Some ''2z'', fdefault = VInt 0\<rparr>] = Inl StructError \<and>
   compile ''Thing''
     [\<lparr>fname = Some ''id'', ftype = Some ''4s'', fdefault = VStr []\<rparr>,
      \<lparr>fname = Some ''count'', ftype = Some ''4'', fdefault = VInt 0\<rparr>] = Inl StructError"
proof -
  let ?f = "\<lparr>fname = Some ''count'', ftype = Some ''2z'', fdefault = VInt 0\<rparr>"
  let ?fs = "[\<lparr>fname = Some ''id'', ftype = Some ''4s'', fdefault = VStr []\<rparr>, ?f]"
  let ?gs = "[\<lparr>fname = Some ''id'', ftype = Some ''4s'', fdefault = VStr []\<rparr>,
              \<lparr>fname = Some ''count'', ftype = Some ''4'', fdefault = VInt 0\<rparr>]"
  have h1: "?f \<in> set ?fs \<and> ftype ?f = Some ''2z'' \<and> CHR ''z'' \<in> set ''2z'' \<and>
      \<not> isspace CHR ''z'' \<and> \<not> isdigit CHR ''z'' \<and> entry CHR ''z'' = None"
    by code_simp
  have h2: "scan None (join_types ?gs) = Inl StructError"
    by code_simp
  have e1: "compile ''Thing'' ?fs = Inl StructError"
    by code_simp
  have e2: "compile ''Thing'' ?gs = Inl StructError"
    by code_simp
  from bad_type_code_fails_at_compile [of ?f ?fs "''2z''" "CHR ''z''" "''Thing''" StructError]
       bad_type_code_fails_at_compile [of ?f ?gs "''2z''" "CHR ''z''" "''Thing''" StructError]
       h1 h2 e1 e2
  show ?thesis by simp
qed

section \<open>Field lists of the data model\<close>

lemma compile_Inr:
  "compile nm fs = Inr L \<Longrightarrow>
   cname L = nm \<and> fields_of L = fs \<and> field_keys fs = Inr (keys L) \<and>
   scan None (join_types fs) = Inr (struct L)"
  by (auto simp: compile_def and_then_Inr_iff)

lemma field_keys_stored:
  "\<forall>f\<in>set fs. ftype f \<noteq> None \<Longrightarrow> field_keys fs = Inr (map fname (stored_fields fs))"
  by (induction fs) (auto simp: stored_fields_def is_filler_def)

lemma scan_append:
  "scan st a = Inr xs \<Longrightarrow> scan st (a @ b) = and_then (scan None b) (\<lambda>ys. Inr (xs @ ys))"
proof (induction a arbitrary: st xs)
  case Nil
  then show ?case by (cases st; cases "scan None b") simp_all
next
  case (Cons c cs)
  show ?case
  proof (cases st)
    case None
    with Cons.prems Cons.IH show ?thesis
      by (cases "scan None b")
         (auto simp: and_then_Inr_iff split: if_splits option.splits)
  next
    case (Some n)
    with Cons.prems Cons.IH show ?thesis
      by (cases "scan None b")
         (auto simp: and_then_Inr_iff split: if_splits option.splits)
  qed
qed

lemma entry_Some_chars:
  "entry c = Some k \<Longrightarrow> c \<in> set ''xcbB?hHiIlLqQefdsp''"
  by (simp add: entry_def split: if_splits)

lemma format_chars_plain:
  "list_all (\<lambda>c. \<not> isdigit c \<and> \<not> isspace c) ''xcbB?hHiIlLqQefdsp''"
  by code_simp

lemma entry_digit: "isdigit c \<Longrightarrow> entry c = None"
proof (cases "entry c")
  case (Some k)
  assume "isdigit c"
  with entry_Some_chars [OF Some] format_chars_plain show ?thesis
    unfolding list_all_iff by blast
qed simp

lemma entry_space: "isspace c \<Longrightarrow> entry c = None"
proof (cases "entry c")
  case (Some k)
  assume "isspace c"
  with entry_Some_chars [OF Some] format_chars_plain show ?thesis
    unfolding list_all_iff by blast
qed simp

lemma scan_kinds:
  "scan st c = Inr its \<Longrightarrow> map snd its = List.map_filter entry c"
proof (induction c arbitrary: st its)
  case Nil
  then show ?case by (cases st) (simp_all add: List.map_filter_simps)
next
  case (Cons a c)
  then show ?case
    by (cases st)
       (auto simp: List.map_filter_simps and_then_Inr_iff entry_digit entry_space
             split: if_splits option.splits)
qed

lemma entry_KPad: "entry ch = Some KPad \<longleftrightarrow> ch = CHR ''x''"
  by (simp add: entry_def)

lemma entry_KStr: "entry ch = Some KStr \<longleftrightarrow> ch = CHR ''s''"
  by (simp add: entry_def)

lemma scan_has_pad:
  "scan st c = Inr its \<Longrightarrow> CHR ''x'' \<in> set c \<longleftrightarrow> KPad \<in> snd ` set its"
proof -
  assume "scan st c = Inr its"
  then have "snd ` set its = set (List.map_filter entry c)"
    using scan_kinds [of st c its] by (metis set_map)
  then show ?thesis
    by (auto simp: List.map_filter_def entry_KPad image_iff) (metis entry_KPad option.sel)
qed

lemma scan_has_str:
  "scan st c = Inr its \<Longrightarrow> CHR ''s'' \<in> set c \<longleftrightarrow> KStr \<in> snd ` set its"
proof -
  assume "scan st c = Inr its"
  then have "snd ` set its = set (List.map_filter entry c)"
    using scan_kinds [of st c its] by (metis set_map)
  then show ?thesis
    by (auto simp: List.map_filter_def entry_KStr image_iff) (metis entry_KStr option.sel)
qed

lemma wf_field_cases:
  assumes "wf_field f"
  obtains (pad) c n where "ftype f = Some c" "scan None c = Inr [(n, KPad)]"
      "is_filler f" "\<not> is_string f" "funit f = UPad n"
    | (str) c n a where "ftype f = Some c" "scan None c = Inr [(n, KStr)]"
      "\<not> is_filler f" "is_string f" "funit f = UStr n" "fname f = Some a"
    | (int) c sg w a where "ftype f = Some c" "scan None c = Inr [(1, KInt sg w)]"
      "\<not> is_filler f" "\<not> is_string f" "funit f = UInt sg w" "fname f = Some a"
proof -
  from assms obtain c it where c: "ftype f = Some c" and sc: "scan None c = Inr [it]"
    and si: "simple_item it" and "snd it = KPad \<or> usable_name (fname f)"
    by (auto simp: wf_field_def split: option.splits sum.splits list.splits)
  then have nm: "snd it = KPad \<or> fname f \<noteq> None"
    by (cases "fname f") auto
  obtain n k where it: "it = (n, k)" by (cases it)
  have x: "CHR ''x'' \<in> set c \<longleftrightarrow> k = KPad"
    using scan_has_pad [OF sc] it by auto
  have s: "CHR ''s'' \<in> set c \<longleftrightarrow> k = KStr"
    using scan_has_str [OF sc] it by auto
  show thesis
  proof (cases k)
    case KPad
    with c sc it x s show ?thesis
      by (intro pad [of c n])
         (simp_all add: is_filler_def is_string_def funit_def field_items_def units_def)
  next
    case KStr
    with c sc it x s nm show ?thesis
      by (cases "fname f")
         (auto intro!: str [of c n]
               simp: is_filler_def is_string_def funit_def field_items_def units_def)
  next
    case (KInt sg w)
    with c sc it x s nm si show ?thesis
      by (cases "fname f")
         (auto intro!: int [of c sg w]
               simp: is_filler_def is_string_def funit_def field_items_def units_def)
  qed (use si it in simp_all)
qed

lemma wf_field_items:
  "wf_field f \<Longrightarrow> \<exists>c. ftype f = Some c \<and> scan None c = Inr (field_items f) \<and>
     units (field_items f) = [funit f]"
  by (erule wf_field_cases) (simp_all add: field_items_def units_def)

lemma scan_join_types:
  "list_all wf_field fs \<Longrightarrow> scan None (join_types fs) = Inr (concat (map field_items fs))"
proof (induction fs)
  case Nil
  then show ?case by simp
next
  case (Cons f fs)
  then obtain c where c: "ftype f = Some c" "scan None c = Inr (field_items f)"
    using wf_field_items by auto
  from Cons have "scan None (join_types fs) = Inr (concat (map field_items fs))" by simp
  with c show ?case by (simp add: scan_append)
qed

lemma units_concat_items:
  "list_all wf_field fs \<Longrightarrow> units (concat (map field_items fs)) = map funit fs"
proof (induction fs)
  case Nil
  then show ?case by (simp add: units_def)
next
  case (Cons f fs)
  then have "units (field_items f) = [funit f]" using wf_field_items by auto
  with Cons show ?case by (simp add: units_def)
qed

lemma wf_typed: "list_all wf_field fs \<Longrightarrow> \<forall>f\<in>set fs. ftype f \<noteq> None"
  by (auto simp: list_all_iff wf_field_def split: option.splits)

lemma compile_wf:
  assumes "compile nm fs = Inr L" "wf_fields fs"
  shows "fields_of L = fs" "keys L = map fname (stored_fields fs)"
    "units (struct L) = map funit fs"
proof -
  from assms(2) have wf: "list_all wf_field fs" by (simp add: wf_fields_def)
  from assms(1) show "fields_of L = fs" by (simp add: compile_Inr)
  from assms(1) field_keys_stored [OF wf_typed [OF wf]]
  show "keys L = map fname (stored_fields fs)" by (simp add: compile_Inr)
  from assms(1) scan_join_types [OF wf] have "struct L = concat (map field_items fs)"
    by (simp add: compile_Inr)
  then show "units (struct L) = map funit fs" by (simp add: units_concat_items [OF wf])
qed

section \<open>Properties and setters of a compiled type\<close>

lemma prop_of_Some:
  "prop_of fs n = Some f \<Longrightarrow>
   f \<in> set fs \<and> fname f = n \<and> char_in (CHR ''x'') (ftype f) = Inr False"
  by (induction fs) (auto split: option.splits if_splits)

lemma prop_of_None:
  "prop_of fs n = None \<Longrightarrow> f \<in> set fs \<Longrightarrow> fname f = n \<Longrightarrow>
   char_in (CHR ''x'') (ftype f) \<noteq> Inr False"
  by (induction fs) (auto split: option.splits if_splits)

lemma stored_iff:
  "ftype f \<noteq> None \<Longrightarrow> \<not> is_filler f \<longleftrightarrow> char_in (CHR ''x'') (ftype f) = Inr False"
  by (cases "ftype f") (auto simp: is_filler_def)

lemma prop_of_stored:
  assumes wf: "wf_fields fs" and f: "f \<in> set (stored_fields fs)"
  shows "prop_of fs (fname f) = Some f"
proof -
  from wf have typed: "\<forall>g\<in>set fs. ftype g \<noteq> None"
    using wf_typed by (auto simp: wf_fields_def)
  from wf have inj: "inj_on fname (set (stored_fields fs))"
    by (simp add: wf_fields_def distinct_map)
  from f have fin: "f \<in> set fs" and nf: "\<not> is_filler f"
    by (simp_all add: stored_fields_def)
  with typed have "char_in (CHR ''x'') (ftype f) = Inr False"
    by (simp add: stored_iff)
  with fin prop_of_None [of fs "fname f" f] obtain g where g: "prop_of fs (fname f) = Some g"
    by (cases "prop_of fs (fname f)") auto
  from prop_of_Some [OF g] typed have "g \<in> set (stored_fields fs)" "fname g = fname f"
    by (auto simp: stored_fields_def stored_iff)
  with inj f have "g = f" by (auto dest: inj_onD)
  with g show ?thesis by simp
qed

lemma prop_of_not_key:
  assumes "\<forall>g\<in>set fs. ftype g \<noteq> None" "n \<notin> set (map fname (stored_fields fs))"
  shows "prop_of fs n = None"
proof (cases "prop_of fs n")
  case (Some g)
  from prop_of_Some [OF Some] assms(1) have "g \<in> set (stored_fields fs)" "fname g = n"
    by (auto simp: stored_fields_def stored_iff)
  with assms(2) show ?thesis by auto
qed simp

lemma stored_named:
  "list_all wf_field fs \<Longrightarrow> f \<in> set (stored_fields fs) \<Longrightarrow> \<exists>a. fname f = Some a"
proof -
  assume "list_all wf_field fs" "f \<in> set (stored_fields fs)"
  then have "wf_field f" "\<not> is_filler f"
    by (auto simp: list_all_iff stored_fields_def)
  then show ?thesis by (auto elim: wf_field_cases)
qed

lemma setattr_stored:
  assumes "wf_fields fs" "fields_of (cls r) = fs" "f \<in> set (stored_fields fs)"
  shows "setattr r (fname f) v = set_prop f r v"
proof -
  from assms obtain a where "fname f = Some a"
    using stored_named by (auto simp: wf_fields_def)
  with assms prop_of_stored [OF assms(1,3)] show ?thesis
    by (simp add: setattr_def)
qed

lemma set_all_stored:
  assumes wf: "wf_fields fs"
  shows "fields_of (cls r) = fs \<Longrightarrow> set gs \<subseteq> set (stored_fields fs) \<Longrightarrow>
    distinct (map fname gs) \<Longrightarrow>
    list_all2 (\<lambda>g v. \<exists>w. set_value g v = Inr w) gs vals \<Longrightarrow>
    \<exists>r'. set_all r (zip (map fname gs) vals) = Ok r' \<and> cls r' = cls r \<and>
      (\<forall>i<length gs. \<exists>w. set_value (gs ! i) (vals ! i) = Inr w \<and>
         map_of (values_of r') (fname (gs ! i)) = Some w) \<and>
      (\<forall>n. n \<notin> set (map fname gs) \<longrightarrow> map_of (values_of r') n = map_of (values_of r) n)"
proof (induction gs arbitrary: r vals)
  case Nil
  then show ?case by simp
next
  case (Cons g gs)
  from Cons.prems(4) obtain v vs where vals: "vals = v # vs"
    and rest: "list_all2 (\<lambda>g v. \<exists>w. set_value g v = Inr w) gs vs"
    and "\<exists>w. set_value g v = Inr w"
    by (auto simp: list_all2_Cons1)
  then obtain w where w: "set_value g v = Inr w" by blast
  define r1 where "r1 = r\<lparr>values_of := AList.update (fname g) w (values_of r)\<rparr>"
  from Cons.prems(1,2) have step: "setattr r (fname g) v = Ok r1"
    by (simp add: setattr_stored [OF wf] set_prop_def w r1_def)
  have r1: "fields_of (cls r1) = fs" "cls r1 = cls r"
    using Cons.prems(1) by (simp_all add: r1_def)
  from Cons.IH [OF r1(1) _ _ rest] Cons.prems(2,3)
  obtain r' where r': "set_all r1 (zip (map fname gs) vs) = Ok r'" "cls r' = cls r1"
      "\<forall>i<length gs. \<exists>w. set_value (gs ! i) (vs ! i) = Inr w \<and>
         map_of (values_of r') (fname (gs ! i)) = Some w"
      "\<forall>n. n \<notin> set (map fname gs) \<longrightarrow> map_of (values_of r') n = map_of (values_of r1) n"
    by auto
  have run: "set_all r (zip (map fname (g # gs)) vals) = Ok r'"
    using step r'(1) by (simp add: vals)
  from Cons.prems(3) have notin: "fname g \<notin> set (map fname gs)" by simp
  have head: "map_of (values_of r') (fname g) = Some w"
    using r'(4) notin by (simp add: r1_def update_conv')
  have idx: "\<forall>i<length (g # gs). \<exists>w. set_value ((g # gs) ! i) (vals ! i) = Inr w \<and>
         map_of (values_of r') (fname ((g # gs) ! i)) = Some w"
  proof (intro allI impI)
    fix i assume "i < length (g # gs)"
    then show "\<exists>w. set_value ((g # gs) ! i) (vals ! i) = Inr w \<and>
         map_of (values_of r') (fname ((g # gs) ! i)) = Some w"
      using w head r'(3) by (cases i) (auto simp: vals)
  qed
  have other: "\<forall>n. n \<notin> set (map fname (g # gs)) \<longrightarrow>
      map_of (values_of r') n = map_of (values_of r) n"
    using r'(4) by (auto simp: r1_def update_conv')
  from run r'(2) r1(2) idx other show ?case
    by (intro exI [of _ r'] conjI) simp_all
qed

lemma decoded_for_simps:
  "is_string f \<Longrightarrow> decoded_for f (VBytes b)"
  "\<not> is_string f \<Longrightarrow> decoded_for f (VInt i)"
  by (simp_all add: decoded_for_def)

lemma unpack_units_wf:
  "list_all wf_field fs \<Longrightarrow>
   \<exists>vals. unpack_units (map funit fs) data = Inr vals \<and>
     list_all2 decoded_for (stored_fields fs) vals"
proof (induction fs arbitrary: data)
  case Nil
  then show ?case by (simp add: stored_fields_def)
next
  case (Cons f fs)
  then have wf: "wf_field f" and wfs: "list_all wf_field fs" by simp_all
  from wf show ?case
  proof (cases rule: wf_field_cases)
    case (pad c n)
    with Cons.IH [OF wfs, of "drop n data"] show ?thesis
      by (auto simp: stored_fields_def)
  next
    case (str c n a)
    with Cons.IH [OF wfs, of "drop n data"] show ?thesis
      by (auto simp: stored_fields_def decoded_for_simps)
  next
    case (int c sg w a)
    with Cons.IH [OF wfs, of "drop w data"] show ?thesis
      by (auto simp: stored_fields_def decoded_for_simps)
  qed
qed

lemma set_value_decoded:
  "decoded_for f v \<Longrightarrow> ftype f \<noteq> None \<Longrightarrow> \<exists>w. set_value f v = Inr w"
  by (cases "ftype f"; cases v)
     (auto simp: set_value_def is_string_def decoded_for_def split: if_splits)

lemma size_of_wf:
  assumes "compile nm fs = Inr L" "wf_fields fs"
  shows "size_of L = sum_list (map (\<lambda>f. usize (funit f)) fs)"
  using compile_wf(3) [OF assms] by (simp add: size_of_def struct_size_def comp_def)

lemma unpack_ok:
  assumes c: "compile nm fs = Inr (cls r)" and wf: "wf_fields fs"
    and len: "length data = size_of (cls r)"
  shows "\<exists>vals r'. struct_unpack (struct (cls r)) data = Inr vals \<and>
      length vals = length (stored_fields fs) \<and>
      unpack r data = Ok r' \<and> cls r' = cls r \<and>
      (\<forall>i<length vals. \<exists>w. set_value (stored_fields fs ! i) (vals ! i) = Inr w \<and>
         map_of (values_of r') (fname (stored_fields fs ! i)) = Some w) \<and>
      (\<forall>n. n \<notin> set (keys (cls r)) \<longrightarrow> map_of (values_of r') n = map_of (values_of r) n)"
proof -
  from wf have wfl: "list_all wf_field fs" by (simp add: wf_fields_def)
  note cw = compile_wf [OF c wf]
  from unpack_units_wf [OF wfl, of data] obtain vals
    where vals: "unpack_units (map funit fs) data = Inr vals"
      and dec: "list_all2 decoded_for (stored_fields fs) vals"
    by blast
  from len vals cw(3) have su: "struct_unpack (struct (cls r)) data = Inr vals"
    by (simp add: struct_unpack_def size_of_def)
  from dec have lv: "length vals = length (stored_fields fs)"
    by (simp add: list_all2_lengthD)
  have typed: "\<forall>g\<in>set fs. ftype g \<noteq> None" using wfl by (rule wf_typed)
  have sv: "list_all2 (\<lambda>g v. \<exists>w. set_value g v = Inr w) (stored_fields fs) vals"
    using typed
    by (intro list.rel_mono_strong [OF dec])
       (auto intro: set_value_decoded simp: stored_fields_def)
  from wf have dist: "distinct (map fname (stored_fields fs))" by (simp add: wf_fields_def)
  from set_all_stored [OF wf cw(1) subset_refl dist sv]
  obtain r' where r': "set_all r (zip (map fname (stored_fields fs)) vals) = Ok r'"
      "cls r' = cls r"
      "\<forall>i<length (stored_fields fs). \<exists>w. set_value (stored_fields fs ! i) (vals ! i) = Inr w \<and>
         map_of (values_of r') (fname (stored_fields fs ! i)) = Some w"
      "\<forall>n. n \<notin> set (map fname (stored_fields fs)) \<longrightarrow>
         map_of (values_of r') n = map_of (values_of r) n"
    by blast
  from su r'(1) cw(2) have "unpack r data = Ok r'" by (simp add: unpack_def)
  with su lv r'(2,3,4) cw(2) show ?thesis
    by (intro exI [of _ vals] exI [of _ r'] conjI) simp_all
qed

text \<open>
  C6: \<open>unpack\<close> of a buffer whose length is not the size of the type raises
  \<^verbatim>\<open>struct.error\<close>; for a type compiled from a field list of the data model, \<open>unpack\<close> of a
  buffer of exactly that size succeeds: \<^verbatim>\<open>Struct.unpack\<close> yields one value for each field
  that is not a filler, in the order of declaration, and each is stored through the setter
  of its field; no other entry of the value mapping changes.
\<close>

theorem unpack_size_check:
  "(length data \<noteq> size_of (cls r) \<longrightarrow> unpack r data = Raised StructError r) \<and>
   (compile nm fs = Inr (cls r) \<and> wf_fields fs \<and> length data = size_of (cls r) \<longrightarrow>
      (\<exists>vals r'. struct_unpack (struct (cls r)) data = Inr vals \<and>
         length vals = length (stored_fields fs) \<and>
         unpack r data = Ok r' \<and> cls r' = cls r \<and>
         (\<forall>i<length vals. \<exists>w. set_value (stored_fields fs ! i) (vals ! i) = Inr w \<and>
            map_of (values_of r') (fname (stored_fields fs ! i)) = Some w) \<and>
         (\<forall>n. n \<notin> set (keys (cls r)) \<longrightarrow>
            map_of (values_of r') n = map_of (values_of r) n)))"
proof (intro conjI impI)
  assume "length data \<noteq> size_of (cls r)"
  then show "unpack r data = Raised StructError r"
    by (simp add: unpack_def struct_unpack_def size_of_def)
next
  assume "compile nm fs = Inr (cls r) \<and> wf_fields fs \<and> length data = size_of (cls r)"
  then show "\<exists>vals r'. struct_unpack (struct (cls r)) data = Inr vals \<and>
         length vals = length (stored_fields fs) \<and>
         unpack r data = Ok r' \<and> cls r' = cls r \<and>
         (\<forall>i<length vals. \<exists>w. set_value (stored_fields fs ! i) (vals ! i) = Inr w \<and>
            map_of (values_of r') (fname (stored_fields fs ! i)) = Some w) \<and>
         (\<forall>n. n \<notin> set (keys (cls r)) \<longrightarrow>
            map_of (values_of r') n = map_of (values_of r) n)"
    using unpack_ok by blast
qed

lemma ex_compile: "compile ''Thing'' ex_fields = Inr ex_layout"
  by code_simp

lemma ex_wf: "wf_fields ex_fields"
  by code_simp

theorem unpack_size_check_witness:
  "unpack \<lparr>cls = ex_layout, values_of = default_values ex_fields\<rparr> [65, 66, 0]
     = Raised StructError \<lparr>cls = ex_layout, values_of = default_values ex_fields\<rparr> \<and>
   unpack \<lparr>cls = ex_layout, values_of = default_values ex_fields\<rparr> [65, 66, 0, 0, 5, 0, 9, 9]
     = Ok \<lparr>cls = ex_layout,
           values_of = [(Some ''id'', VStr (str_of ''AB'')), (Some ''count'', VInt 5), (None, VNone)]\<rparr> \<and>
   (\<exists>vals r'. struct_unpack (struct ex_layout) [65, 66, 0, 0, 5, 0, 9, 9] = Inr vals \<and>
      length vals = length (stored_fields ex_fields) \<and>
      unpack \<lparr>cls = ex_layout, values_of = default_values ex_fields\<rparr> [65, 66, 0, 0, 5, 0, 9, 9]
        = Ok r')"
proof -
  let ?r = "\<lparr>cls = ex_layout, values_of = default_values ex_fields\<rparr>"
  let ?bad = "[65, 66, 0] :: byte list"
  let ?good = "[65, 66, 0, 0, 5, 0, 9, 9] :: byte list"
  have h1: "length ?bad \<noteq> size_of (cls ?r)" by code_simp
  have h2: "compile ''Thing'' ex_fields = Inr (cls ?r) \<and> wf_fields ex_fields \<and>
      length ?good = size_of (cls ?r)"
    using ex_compile ex_wf by (simp add: size_of_def struct_size_def units_def ex_layout_def)
  have v: "unpack ?r ?good
     = Ok \<lparr>cls = ex_layout,
           values_of = [(Some ''id'', VStr (str_of ''AB'')), (Some ''count'', VInt 5), (None, VNone)]\<rparr>"
    by code_simp
  from unpack_size_check [of ?bad ?r] h1
  have a: "unpack ?r ?bad = Raised StructError ?r" by blast
  from unpack_size_check [of ?good ?r "''Thing''" ex_fields] h2
  have b: "\<exists>vals r'. struct_unpack (struct ex_layout) ?good = Inr vals \<and>
      length vals = length (stored_fields ex_fields) \<and> unpack ?r ?good = Ok r'"
    by auto
  from a b v show ?thesis by blast
qed

section \<open>What the setters leave alone\<close>

lemma set_prop_frame:
  "n \<noteq> fname f \<Longrightarrow> map_of (values_of (state_of (set_prop f r v))) n = map_of (values_of r) n"
  by (cases "set_value f v") (simp_all add: set_prop_def update_conv')

lemma set_prop_cls: "cls (state_of (set_prop f r v)) = cls r"
  by (cases "set_value f v") (simp_all add: set_prop_def)

lemma setattr_frame:
  "n \<noteq> k \<Longrightarrow> map_of (values_of (state_of (setattr r k v))) n = map_of (values_of r) n"
  by (auto simp: setattr_def set_prop_frame split: option.splits dest: prop_of_Some)

lemma setattr_no_prop:
  "prop_of (fields_of (cls r)) k = None \<Longrightarrow> state_of (setattr r k v) = r"
  by (cases k) (simp_all add: setattr_def)

lemma setattr_cls: "cls (state_of (setattr r k v)) = cls r"
  by (simp add: setattr_def set_prop_cls split: option.splits)

lemma set_all_frame:
  "n \<notin> fst ` set kvs \<Longrightarrow>
   map_of (values_of (state_of (set_all r kvs))) n = map_of (values_of r) n"
proof (induction kvs arbitrary: r)
  case Nil
  then show ?case by simp
next
  case (Cons kv kvs)
  obtain k v where kv: "kv = (k, v)" by (cases kv)
  with Cons.prems have nk: "n \<noteq> k" and rest: "n \<notin> fst ` set kvs" by auto
  show ?case
  proof (cases "setattr r k v")
    case (Ok r1)
    with setattr_frame [OF nk, of r v] Cons.IH [OF rest, of r1] show ?thesis
      by (simp add: kv)
  next
    case (Raised e r1)
    with setattr_frame [OF nk, of r v] show ?thesis by (simp add: kv)
  qed
qed

lemma set_all_cls: "cls (state_of (set_all r kvs)) = cls r"
proof (induction kvs arbitrary: r)
  case Nil
  then show ?case by simp
next
  case (Cons kv kvs)
  obtain k v where kv: "kv = (k, v)" by (cases kv)
  show ?case
  proof (cases "setattr r k v")
    case (Ok r1)
    with setattr_cls [of r k v] Cons.IH [of r1] show ?thesis by (simp add: kv)
  next
    case (Raised e r1)
    with setattr_cls [of r k v] show ?thesis by (simp add: kv)
  qed
qed

lemma unpack_frame:
  "n \<notin> set (keys (cls r)) \<Longrightarrow>
   map_of (values_of (state_of (unpack r data))) n = map_of (values_of r) n"
proof (cases "struct_unpack (struct (cls r)) data")
  case (Inl e)
  then show ?thesis by (simp add: unpack_def)
next
  case (Inr vals)
  assume "n \<notin> set (keys (cls r))"
  then have "n \<notin> fst ` set (zip (keys (cls r)) vals)"
    by (auto dest: set_zip_leftD)
  with Inr show ?thesis by (simp add: unpack_def set_all_frame)
qed

lemma init_frame:
  "n \<notin> set (keys L) \<Longrightarrow>
   map_of (values_of (state_of (init L args kwargs))) n = map_of (default_values (fields_of L)) n"
proof -
  assume n: "n \<notin> set (keys L)"
  let ?r = "\<lparr>cls = L, values_of = default_values (fields_of L)\<rparr>"
  show ?thesis
  proof (cases "map_of kwargs ''bytes''")
    case None
    have "n \<notin> fst ` set (filter (\<lambda>(k, v). k \<in> set (keys L))
        (dict_update (dict_of (zip (keys L) args)) (map (\<lambda>(k, v). (Some k, v)) kwargs)))"
      using n by auto
    with None show ?thesis
      using set_all_frame [of n _ ?r] by (simp add: init_def Let_def)
  next
    case (Some d)
    with unpack_frame [of n ?r] n show ?thesis
      by (cases d) (simp_all add: init_def Let_def)
  qed
qed

lemma map_of_dict_update:
  "map_of (dict_update d kvs) = map_of d ++ map_of (rev kvs)"
proof (induction kvs arbitrary: d)
  case Nil
  then show ?case by (simp add: dict_update_def)
next
  case (Cons kv kvs)
  obtain k v where kv: "kv = (k, v)" by (cases kv)
  have 1: "dict_update d (kv # kvs) = dict_update (AList.update k v d) kvs"
    by (simp add: dict_update_def kv)
  have 2: "map_of (rev (kv # kvs)) = [k \<mapsto> v] ++ map_of (rev kvs)"
    by (simp add: kv)
  have 3: "(map_of d)(k \<mapsto> v) = map_of d ++ [k \<mapsto> v]"
    by simp
  show ?case
    by (simp only: 1 Cons.IH update_conv' 2 3 map_add_assoc)
qed

lemma map_of_dict_of: "map_of (dict_of kvs) = map_of (rev kvs)"
  by (simp add: dict_of_def map_of_dict_update)

lemma default_values_entry:
  "f \<in> set fs \<Longrightarrow>
   \<exists>g\<in>set fs. fname g = fname f \<and> map_of (default_values fs) (fname f) = Some (fdefault g)"
proof -
  assume "f \<in> set fs"
  then have "fname f \<in> fst ` set (rev (map (\<lambda>f. (fname f, fdefault f)) fs))"
    by (auto simp: image_iff)
  then obtain d where d: "map_of (rev (map (\<lambda>f. (fname f, fdefault f)) fs)) (fname f) = Some d"
    by (metis domIff dom_map_of_conv_image_fst not_Some_eq)
  then have "(fname f, d) \<in> set (rev (map (\<lambda>f. (fname f, fdefault f)) fs))"
    by (rule map_of_SomeD)
  then obtain g where "g \<in> set fs" "fname g = fname f" "fdefault g = d" by auto
  with d show ?thesis
    by (auto simp: default_values_def map_of_dict_of rev_map)
qed

lemma filler_not_key:
  assumes "compile nm fs = Inr L" "wf_fields fs" "f \<in> set fs" "is_filler f"
  shows "fname f \<notin> set (keys L)"
  using assms compile_wf(2) [OF assms(1,2)]
  by (auto simp: wf_fields_def list_all_iff)

section \<open>The constructor\<close>

lemma zip_positional:
  "distinct ks \<Longrightarrow> i < length ks \<Longrightarrow>
   map_of (zip ks args) (ks ! i) = (if i < length args then Some (args ! i) else None)"
proof (induction ks arbitrary: i args)
  case Nil
  then show ?case by simp
next
  case (Cons k ks)
  show ?case
  proof (cases args)
    case Nil
    then show ?thesis by simp
  next
    case (Cons a as)
    show ?thesis
    proof (cases i)
      case 0
      then show ?thesis by (simp add: Cons)
    next
      case (Suc j)
      with Cons.prems have j: "j < length ks" "distinct ks" "ks ! j \<noteq> k" by auto
      with Cons.IH [of j as] show ?thesis by (simp add: Cons Suc)
    qed
  qed
qed

lemma zip_not_key: "n \<notin> set ks \<Longrightarrow> map_of (zip ks args) n = None"
  by (metis map_of_eq_None_iff set_zip_leftD surjective_pairing imageE)

lemma kw_lookup:
  "map_of (map (\<lambda>(k, v). (Some k, v)) kwargs) n
     = (case n of None \<Rightarrow> None | Some a \<Rightarrow> map_of kwargs a)"
  by (induction kwargs) (auto split: option.splits)

lemma distinct_kw:
  "distinct (map fst kwargs) \<Longrightarrow> distinct (map fst (map (\<lambda>(k, v). (Some k, v)) kwargs))"
  by (induction kwargs) (auto simp: image_iff)

lemma distinct_dict_update:
  "distinct (map fst d) \<Longrightarrow> distinct (map fst (dict_update d kvs))"
proof (induction kvs arbitrary: d)
  case Nil
  then show ?case by (simp add: dict_update_def)
next
  case (Cons kv kvs)
  obtain k v where kv: "kv = (k, v)" by (cases kv)
  have "dict_update d (kv # kvs) = dict_update (AList.update k v d) kvs"
    by (simp add: dict_update_def kv)
  with Cons.IH [of "AList.update k v d"] Cons.prems show ?case
    by (simp add: distinct_update)
qed

lemma map_of_rev_distinct: "distinct (map fst xs) \<Longrightarrow> map_of (rev xs) = map_of xs"
  by (subst map_of_inject_set) (simp_all add: rev_map [symmetric])

lemma given_lookup:
  assumes "distinct ks" "distinct (map fst kwargs)"
  shows "map_of (dict_update (dict_of (zip ks args)) (map (\<lambda>(k, v). (Some k, v)) kwargs)) n
     = (case (case n of None \<Rightarrow> None | Some a \<Rightarrow> map_of kwargs a) of
          Some v \<Rightarrow> Some v
        | None \<Rightarrow> map_of (zip ks args) n)"
proof -
  have dz: "distinct (map fst (zip ks args))"
    using assms(1) by (simp add: map_fst_zip_take)
  have "map_of (dict_update (dict_of (zip ks args)) (map (\<lambda>(k, v). (Some k, v)) kwargs))
      = map_of (zip ks args) ++ map_of (map (\<lambda>(k, v). (Some k, v)) kwargs)"
    by (simp only: map_of_dict_update map_of_dict_of map_of_rev_distinct [OF dz]
          map_of_rev_distinct [OF distinct_kw [OF assms(2)]])
  then show ?thesis
    by (simp add: map_add_def kw_lookup split: option.splits)
qed

lemma set_all_pairs:
  assumes wf: "wf_fields fs"
  shows "fields_of (cls r) = fs \<Longrightarrow> distinct (map fst kvs) \<Longrightarrow>
    (\<forall>(k, v)\<in>set kvs. \<exists>g\<in>set (stored_fields fs). fname g = k \<and> (\<exists>w. set_value g v = Inr w)) \<Longrightarrow>
    \<exists>r'. set_all r kvs = Ok r' \<and> cls r' = cls r \<and>
      (\<forall>g\<in>set (stored_fields fs). \<forall>v w. (fname g, v) \<in> set kvs \<longrightarrow>
         set_value g v = Inr w \<longrightarrow> map_of (values_of r') (fname g) = Some w) \<and>
      (\<forall>n. n \<notin> fst ` set kvs \<longrightarrow> map_of (values_of r') n = map_of (values_of r) n)"
proof (induction kvs arbitrary: r)
  case Nil
  then show ?case by simp
next
  case (Cons kv kvs)
  obtain k v where kv: "kv = (k, v)" by (cases kv)
  from Cons.prems(3) kv obtain g w where g: "g \<in> set (stored_fields fs)" "fname g = k"
    and w: "set_value g v = Inr w" by auto
  define r1 where "r1 = r\<lparr>values_of := AList.update k w (values_of r)\<rparr>"
  from Cons.prems(1) g have step: "setattr r k v = Ok r1"
    using setattr_stored [OF wf Cons.prems(1) g(1), of v]
    by (simp add: set_prop_def w r1_def)
  have r1: "fields_of (cls r1) = fs" "cls r1 = cls r"
    using Cons.prems(1) by (simp_all add: r1_def)
  from Cons.prems(2) kv have d: "distinct (map fst kvs)" and nk: "k \<notin> fst ` set kvs"
    by auto
  from Cons.prems(3) have rest: "\<forall>(k, v)\<in>set kvs. \<exists>g\<in>set (stored_fields fs).
      fname g = k \<and> (\<exists>w. set_value g v = Inr w)" by simp
  from Cons.IH [OF r1(1) d rest]
  obtain r' where r': "set_all r1 kvs = Ok r'" "cls r' = cls r1"
      "\<forall>g\<in>set (stored_fields fs). \<forall>v w. (fname g, v) \<in> set kvs \<longrightarrow>
         set_value g v = Inr w \<longrightarrow> map_of (values_of r') (fname g) = Some w"
      "\<forall>n. n \<notin> fst ` set kvs \<longrightarrow> map_of (values_of r') n = map_of (values_of r1) n"
    by blast
  have run: "set_all r (kv # kvs) = Ok r'"
    using step r'(1) by (simp add: kv)
  have head: "map_of (values_of r') k = Some w"
    using r'(4) nk by (simp add: r1_def update_conv')
  have inj: "inj_on fname (set (stored_fields fs))"
    using wf by (simp add: wf_fields_def distinct_map)
  have vals: "\<forall>g'\<in>set (stored_fields fs). \<forall>v' w'. (fname g', v') \<in> set (kv # kvs) \<longrightarrow>
         set_value g' v' = Inr w' \<longrightarrow> map_of (values_of r') (fname g') = Some w'"
  proof (intro ballI allI impI)
    fix g' v' w'
    assume g': "g' \<in> set (stored_fields fs)"
      and m: "(fname g', v') \<in> set (kv # kvs)" and s: "set_value g' v' = Inr w'"
    show "map_of (values_of r') (fname g') = Some w'"
    proof (cases "(fname g', v') \<in> set kvs")
      case True
      with r'(3) s g' show ?thesis by blast
    next
      case False
      with m kv have e: "fname g' = k" "v' = v" by auto
      with g g' inj have "g' = g" by (auto dest: inj_onD)
      with s w e head show ?thesis by simp
    qed
  qed
  have other: "\<forall>n. n \<notin> fst ` set (kv # kvs) \<longrightarrow> map_of (values_of r') n = map_of (values_of r) n"
    using r'(4) by (auto simp: r1_def update_conv' kv)
  from run r'(2) r1(2) vals other show ?case
    by (intro exI [of _ r'] conjI) simp_all
qed

lemma default_stored:
  assumes wf: "wf_fields fs" and f: "f \<in> set (stored_fields fs)"
  shows "map_of (default_values fs) (fname f) = Some (fdefault f)"
proof -
  from f have "f \<in> set fs" by (simp add: stored_fields_def)
  from default_values_entry [OF this] obtain g where g: "g \<in> set fs" "fname g = fname f"
    "map_of (default_values fs) (fname f) = Some (fdefault g)" by blast
  have inj: "inj_on fname (set (stored_fields fs))"
    using wf by (simp add: wf_fields_def distinct_map)
  have "g = f"
  proof (cases "is_filler g")
    case True
    with wf g(1) have "fname g \<notin> set (map fname (stored_fields fs))"
      by (simp add: wf_fields_def list_all_iff)
    with g(2) f show ?thesis by auto
  next
    case False
    with g(1) have "g \<in> set (stored_fields fs)" by (simp add: stored_fields_def)
    with inj f g(2) show ?thesis by (auto dest: inj_onD)
  qed
  with g(3) show ?thesis by simp
qed

lemma map_of_filter_keys:
  "map_of (filter (\<lambda>(k, v). k \<in> S) xs) n = (if n \<in> S then map_of xs n else None)"
  by (induction xs) auto

text \<open>
  C7: a type compiled from a field list of the data model is constructed from positional
  and keyword values, with no \<^verbatim>\<open>bytes\<close> keyword. If every value that reaches a field is one
  its setter accepts, the constructor returns an instance in which the \<open>i\<close>-th field that is
  not a filler (the \<open>i\<close>-th key) holds, through its setter, the keyword value of its name if
  there is one, else the \<open>i\<close>-th positional value if there is one, else its declared
  default. Keyword values of other names and positional values beyond the keys change
  nothing and raise nothing; every entry outside the keys keeps its default.
\<close>

theorem init_from_values:
  assumes c: "compile nm fs = Inr L" and wf: "wf_fields fs"
    and nb: "map_of kwargs ''bytes'' = None" and dk: "distinct (map fst kwargs)"
    and ok: "\<forall>i<length (stored_fields fs). \<forall>a v.
        fname (stored_fields fs ! i) = Some a \<longrightarrow> assigned args kwargs i a = Some v \<longrightarrow>
        (\<exists>w. set_value (stored_fields fs ! i) v = Inr w)"
  shows "\<exists>r. init L args kwargs = Ok r \<and> cls r = L \<and>
     (\<forall>i<length (stored_fields fs). \<exists>a. fname (stored_fields fs ! i) = Some a \<and>
        keys L ! i = Some a \<and>
        (case assigned args kwargs i a of
           Some v \<Rightarrow> (\<exists>w. set_value (stored_fields fs ! i) v = Inr w \<and>
                        map_of (values_of r) (Some a) = Some w)
         | None \<Rightarrow> map_of (values_of r) (Some a) = Some (fdefault (stored_fields fs ! i)))) \<and>
     (\<forall>n. n \<notin> set (keys L) \<longrightarrow> map_of (values_of r) n = map_of (default_values fs) n)"
proof -
  let ?sf = "stored_fields fs"
  let ?ks = "keys L"
  let ?fresh = "\<lparr>cls = L, values_of = default_values fs\<rparr>"
  let ?vals = "dict_update (dict_of (zip ?ks args)) (map (\<lambda>(k, v). (Some k, v)) kwargs)"
  let ?kvs = "filter (\<lambda>(k, v). k \<in> set ?ks) ?vals"
  note cw = compile_wf [OF c wf]
  from wf have wfl: "list_all wf_field fs" and dks: "distinct ?ks"
    by (simp_all add: wf_fields_def cw(2))
  have run: "init L args kwargs = set_all ?fresh ?kvs"
    by (simp add: init_def nb cw(1))
  have "distinct (map fst (dict_of (zip ?ks args)))"
    unfolding dict_of_def by (rule distinct_dict_update) simp
  then have dv: "distinct (map fst ?vals)"
    by (rule distinct_dict_update)
  then have dkv: "distinct (map fst ?kvs)" by (rule distinct_map_filter)
  have mk: "\<And>n. map_of ?kvs n = (if n \<in> set ?ks then map_of ?vals n else None)"
    by (rule map_of_filter_keys)
  have key: "\<And>i. i < length ?sf \<Longrightarrow>
      \<exists>a. fname (?sf ! i) = Some a \<and> ?ks ! i = Some a \<and> map_of ?kvs (Some a) = assigned args kwargs i a"
  proof -
    fix i assume i: "i < length ?sf"
    then have mem: "?sf ! i \<in> set ?sf" by simp
    from stored_named [OF wfl mem] obtain a where a: "fname (?sf ! i) = Some a" by blast
    from i a have ki: "?ks ! i = Some a" by (simp add: cw(2))
    from i have il: "i < length ?ks" by (simp add: cw(2))
    then have kin: "Some a \<in> set ?ks" using ki by (metis nth_mem)
    have "map_of ?vals (Some a) = assigned args kwargs i a"
      using zip_positional [OF dks il, of args] ki
      by (simp add: given_lookup [OF dks dk] assigned_def split: option.splits)
    with kin a ki show "\<exists>a. fname (?sf ! i) = Some a \<and> ?ks ! i = Some a \<and>
        map_of ?kvs (Some a) = assigned args kwargs i a"
      by (simp add: mk)
  qed
  have pre: "\<forall>(k, v)\<in>set ?kvs. \<exists>g\<in>set ?sf. fname g = k \<and> (\<exists>w. set_value g v = Inr w)"
  proof (intro ballI, clarify)
    fix k v assume kv: "(k, v) \<in> set ?kvs"
    then have "k \<in> set ?ks" by simp
    then obtain i where i: "i < length ?sf" "?ks ! i = k"
      by (auto simp: in_set_conv_nth cw(2))
    from key [OF i(1)] i(2) obtain a where a: "fname (?sf ! i) = Some a" "k = Some a"
      "map_of ?kvs (Some a) = assigned args kwargs i a" by auto
    from kv dkv a(2) have "map_of ?kvs (Some a) = Some v" by simp
    with a(3) have "assigned args kwargs i a = Some v" by simp
    with ok i(1) a(1) obtain w where "set_value (?sf ! i) v = Inr w" by blast
    with i(1) a show "\<exists>g\<in>set ?sf. fname g = k \<and> (\<exists>w. set_value g v = Inr w)"
      by (intro bexI [of _ "?sf ! i"]) auto
  qed
  have f0: "fields_of (cls ?fresh) = fs" by (simp add: cw(1))
  from set_all_pairs [OF wf f0 dkv pre]
  obtain r where r: "set_all ?fresh ?kvs = Ok r" "cls r = cls ?fresh"
      "\<forall>g\<in>set ?sf. \<forall>v w. (fname g, v) \<in> set ?kvs \<longrightarrow>
         set_value g v = Inr w \<longrightarrow> map_of (values_of r) (fname g) = Some w"
      "\<forall>n. n \<notin> fst ` set ?kvs \<longrightarrow> map_of (values_of r) n = map_of (values_of ?fresh) n"
    by blast
  have fields: "\<forall>i<length ?sf. \<exists>a. fname (?sf ! i) = Some a \<and> ?ks ! i = Some a \<and>
        (case assigned args kwargs i a of
           Some v \<Rightarrow> (\<exists>w. set_value (?sf ! i) v = Inr w \<and> map_of (values_of r) (Some a) = Some w)
         | None \<Rightarrow> map_of (values_of r) (Some a) = Some (fdefault (?sf ! i)))"
  proof (intro allI impI)
    fix i assume i: "i < length ?sf"
    then have mem: "?sf ! i \<in> set ?sf" by simp
    from key [OF i] obtain a where a: "fname (?sf ! i) = Some a" "?ks ! i = Some a"
      "map_of ?kvs (Some a) = assigned args kwargs i a" by blast
    have "case assigned args kwargs i a of
           Some v \<Rightarrow> (\<exists>w. set_value (?sf ! i) v = Inr w \<and> map_of (values_of r) (Some a) = Some w)
         | None \<Rightarrow> map_of (values_of r) (Some a) = Some (fdefault (?sf ! i))"
    proof (cases "assigned args kwargs i a")
      case None
      with a(3) have "Some a \<notin> fst ` set ?kvs"
        by (metis map_of_eq_None_iff)
      with r(4) have "map_of (values_of r) (Some a) = map_of (default_values fs) (Some a)"
        by simp
      with default_stored [OF wf mem] a(1) None show ?thesis by simp
    next
      case (Some v)
      with a(3) dkv have in_kvs: "(Some a, v) \<in> set ?kvs" by simp
      from ok i a(1) Some obtain w where w: "set_value (?sf ! i) v = Inr w" by blast
      from r(3) mem in_kvs w a(1) have "map_of (values_of r) (Some a) = Some w"
        by (metis (no_types, lifting))
      with w Some show ?thesis by simp
    qed
    with a show "\<exists>a. fname (?sf ! i) = Some a \<and> ?ks ! i = Some a \<and>
        (case assigned args kwargs i a of
           Some v \<Rightarrow> (\<exists>w. set_value (?sf ! i) v = Inr w \<and> map_of (values_of r) (Some a) = Some w)
         | None \<Rightarrow> map_of (values_of r) (Some a) = Some (fdefault (?sf ! i)))"
      by blast
  qed
  have frame: "\<forall>n. n \<notin> set ?ks \<longrightarrow> map_of (values_of r) n = map_of (default_values fs) n"
  proof (intro allI impI)
    fix n assume "n \<notin> set ?ks"
    then have "n \<notin> fst ` set ?kvs" by auto
    with r(4) show "map_of (values_of r) n = map_of (default_values fs) n" by simp
  qed
  from run r(1,2) fields frame show ?thesis
    by (intro exI [of _ r] conjI) simp_all
qed

theorem init_from_values_witness:
  "init ex_layout [VStr (str_of ''AB''), VInt 5, VInt 7] [(''count'', VInt 9), (''zz'', VInt 1)]
     = Ok \<lparr>cls = ex_layout,
           values_of = [(Some ''id'', VStr (str_of ''AB'')), (Some ''count'', VInt 9), (None, VNone)]\<rparr> \<and>
   (\<exists>r. init ex_layout [VStr (str_of ''AB''), VInt 5, VInt 7] [(''count'', VInt 9), (''zz'', VInt 1)] = Ok r \<and>
      cls r = ex_layout \<and>
      (\<forall>n. n \<notin> set (keys ex_layout) \<longrightarrow>
         map_of (values_of r) n = map_of (default_values ex_fields) n))"
proof -
  let ?args = "[VStr (str_of ''AB''), VInt 5, VInt 7]"
  let ?kw = "[(''count'', VInt 9), (''zz'', VInt 1)]"
  let ?f0 = "\<lparr>fname = Some ''id'', ftype = Some ''4s'', fdefault = VStr []\<rparr>"
  let ?f1 = "\<lparr>fname = Some ''count'', ftype = Some ''h'', fdefault = VInt 0\<rparr>"
  have h: "compile ''Thing'' ex_fields = Inr ex_layout" "wf_fields ex_fields"
    "map_of ?kw ''bytes'' = None" "distinct (map fst ?kw)"
    by code_simp+
  have sf: "stored_fields ex_fields = [?f0, ?f1]" by code_simp
  have a0: "assigned ?args ?kw 0 ''id'' = Some (VStr (str_of ''AB''))" by code_simp
  have a1: "assigned ?args ?kw 1 ''count'' = Some (VInt 9)" by code_simp
  have s0: "set_value ?f0 (VStr (str_of ''AB'')) = Inr (VStr (str_of ''AB''))" by code_simp
  have s1: "set_value ?f1 (VInt 9) = Inr (VInt 9)" by code_simp
  have ok: "\<forall>i<length (stored_fields ex_fields). \<forall>a v.
        fname (stored_fields ex_fields ! i) = Some a \<longrightarrow> assigned ?args ?kw i a = Some v \<longrightarrow>
        (\<exists>w. set_value (stored_fields ex_fields ! i) v = Inr w)"
    unfolding sf using a0 a1 s0 s1 by (auto simp: less_Suc_eq)
  have v: "init ex_layout ?args ?kw
     = Ok \<lparr>cls = ex_layout,
           values_of = [(Some ''id'', VStr (str_of ''AB'')), (Some ''count'', VInt 9), (None, VNone)]\<rparr>"
    by code_simp
  from init_from_values [OF h ok] v show ?thesis by auto
qed

section \<open>Stored strings have no NUL\<close>

lemma cut_at_nul_free: "NUL \<notin> set (cut_at_nul s)"
  by (auto simp: cut_at_nul_def dest: set_takeWhileD)

lemma zstrip_nul_free: "zstrip v = Inr w \<Longrightarrow> nul_free w"
  by (cases v) (auto simp: cut_at_nul_free)

lemma string_stored:
  "wf_fields fs \<Longrightarrow> f \<in> set fs \<Longrightarrow> is_string f \<Longrightarrow> f \<in> set (stored_fields fs)"
proof -
  assume "wf_fields fs" "f \<in> set fs" "is_string f"
  then have "wf_field f" by (simp add: wf_fields_def list_all_iff)
  with \<open>is_string f\<close> have "\<not> is_filler f" by (auto elim: wf_field_cases)
  with \<open>f \<in> set fs\<close> show ?thesis by (simp add: stored_fields_def)
qed

lemma setattr_nul_free:
  assumes wf: "wf_fields fs" and r: "fields_of (cls r) = fs"
    and inv: "strings_nul_free fs (values_of r)"
  shows "strings_nul_free fs (values_of (state_of (setattr r n v)))"
proof (cases "prop_of fs n")
  case None
  with r show ?thesis using inv by (simp add: setattr_no_prop)
next
  case (Some g)
  from prop_of_Some [OF Some] have g: "g \<in> set fs" "fname g = n"
    "char_in (CHR ''x'') (ftype g) = Inr False" by simp_all
  then have gs: "g \<in> set (stored_fields fs)"
    by (simp add: stored_fields_def is_filler_def)
  have inj: "inj_on fname (set (stored_fields fs))"
    using wf by (simp add: wf_fields_def distinct_map)
  show ?thesis
  proof (cases n)
    case None
    then show ?thesis using inv by (simp add: setattr_def)
  next
    case (Some a)
    show ?thesis
    proof (cases "set_value g v")
      case (Inl e)
      with Some \<open>prop_of fs n = Some g\<close> r inv show ?thesis
        by (simp add: setattr_def set_prop_def)
    next
      case (Inr w)
      with Some \<open>prop_of fs n = Some g\<close> r
      have st: "values_of (state_of (setattr r n v)) = AList.update n w (values_of r)"
        by (simp add: setattr_def set_prop_def g(2))
      have "\<And>f. f \<in> set fs \<Longrightarrow> is_string f \<Longrightarrow>
          (case map_of (AList.update n w (values_of r)) (fname f) of
             None \<Rightarrow> True | Some v \<Rightarrow> nul_free v)"
      proof -
        fix f assume f: "f \<in> set fs" "is_string f"
        show "case map_of (AList.update n w (values_of r)) (fname f) of
             None \<Rightarrow> True | Some v \<Rightarrow> nul_free v"
        proof (cases "fname f = n")
          case True
          from string_stored [OF wf f] gs inj True g(2) have "f = g"
            by (auto dest: inj_onD)
          with f(2) Inr have "zstrip v = Inr w"
            by (cases "ftype g") (auto simp: set_value_def is_string_def)
          then have "nul_free w" by (rule zstrip_nul_free)
          with True show ?thesis by (simp add: update_conv')
        next
          case False
          with inv f show ?thesis
            by (simp add: strings_nul_free_def list_all_iff update_conv')
        qed
      qed
      then show ?thesis
        by (simp add: st strings_nul_free_def list_all_iff)
    qed
  qed
qed

lemma set_all_nul_free:
  assumes wf: "wf_fields fs"
  shows "fields_of (cls r) = fs \<Longrightarrow> strings_nul_free fs (values_of r) \<Longrightarrow>
    strings_nul_free fs (values_of (state_of (set_all r kvs)))"
proof (induction kvs arbitrary: r)
  case Nil
  then show ?case by simp
next
  case (Cons kv kvs)
  obtain k v where kv: "kv = (k, v)" by (cases kv)
  have inv1: "strings_nul_free fs (values_of (state_of (setattr r k v)))"
    by (rule setattr_nul_free [OF wf Cons.prems])
  have cls1: "fields_of (cls (state_of (setattr r k v))) = fs"
    using Cons.prems(1) by (simp add: setattr_cls)
  show ?case
  proof (cases "setattr r k v")
    case (Ok r1)
    with inv1 cls1 Cons.IH [of r1] show ?thesis by (simp add: kv)
  next
    case (Raised e r1)
    with inv1 show ?thesis by (simp add: kv)
  qed
qed

lemma unpack_nul_free:
  assumes "wf_fields fs" "fields_of (cls r) = fs" "strings_nul_free fs (values_of r)"
  shows "strings_nul_free fs (values_of (state_of (unpack r data)))"
  using assms
  by (cases "struct_unpack (struct (cls r)) data") (simp_all add: unpack_def set_all_nul_free)

lemma defaults_inv:
  assumes wf: "wf_fields fs" and d: "defaults_nul_free fs"
  shows "strings_nul_free fs (default_values fs)"
proof -
  have "\<And>f. f \<in> set fs \<Longrightarrow> is_string f \<Longrightarrow>
      (case map_of (default_values fs) (fname f) of None \<Rightarrow> True | Some v \<Rightarrow> nul_free v)"
  proof -
    fix f assume f: "f \<in> set fs" "is_string f"
    from default_stored [OF wf string_stored [OF wf f]] d f
    show "case map_of (default_values fs) (fname f) of None \<Rightarrow> True | Some v \<Rightarrow> nul_free v"
      by (simp add: defaults_nul_free_def list_all_iff)
  qed
  then show ?thesis by (simp add: strings_nul_free_def list_all_iff)
qed

lemma init_nul_free:
  assumes wf: "wf_fields fs" and L: "fields_of L = fs" and d: "defaults_nul_free fs"
  shows "strings_nul_free fs (values_of (state_of (init L args kwargs)))"
proof -
  let ?r = "\<lparr>cls = L, values_of = default_values fs\<rparr>"
  have r: "fields_of (cls ?r) = fs" "strings_nul_free fs (values_of ?r)"
    using L defaults_inv [OF wf d] by simp_all
  show ?thesis
  proof (cases "map_of kwargs ''bytes''")
    case None
    with set_all_nul_free [OF wf r] show ?thesis
      by (simp add: init_def L)
  next
    case (Some b)
    with unpack_nul_free [OF wf r] r(2) show ?thesis
      by (cases b) (simp_all add: init_def L)
  qed
qed

text \<open>
  C10: in a type compiled from a field list of the data model whose string-typed fields
  have defaults without NUL, the value mapping of a new instance has no NUL in the value
  of any string-typed field, whatever the arguments of the constructor (values or raw
  bytes) and whether or not it raises; and an assignment through \<open>setattr\<close> and a call of
  \<open>unpack\<close> keep that invariant, whether or not they raise.
\<close>

theorem strings_stay_nul_free:
  "compile nm fs = Inr L \<Longrightarrow> wf_fields fs \<Longrightarrow>
   (defaults_nul_free fs \<longrightarrow>
      strings_nul_free fs (values_of (state_of (init L args kwargs)))) \<and>
   (cls r = L \<and> strings_nul_free fs (values_of r) \<longrightarrow>
      strings_nul_free fs (values_of (state_of (setattr r n v))) \<and>
      strings_nul_free fs (values_of (state_of (unpack r data))))"
proof -
  assume c: "compile nm fs = Inr L" and wf: "wf_fields fs"
  have L: "fields_of L = fs" by (rule compile_wf(1) [OF c wf])
  show ?thesis
    using init_nul_free [OF wf L] setattr_nul_free [OF wf] unpack_nul_free [OF wf] L
    by auto
qed

theorem strings_stay_nul_free_witness:
  "strings_nul_free ex_fields
     (values_of (state_of (init ex_layout [VStr [65, 0, 66], VInt 5] []))) \<and>
   init ex_layout [VStr [65, 0, 66], VInt 5] []
     = Ok \<lparr>cls = ex_layout,
           values_of = [(Some ''id'', VStr (str_of ''A'')), (Some ''count'', VInt 5), (None, VNone)]\<rparr> \<and>
   strings_nul_free ex_fields
     (values_of (state_of (unpack \<lparr>cls = ex_layout, values_of = default_values ex_fields\<rparr>
                             [65, 0, 66, 0, 5, 0, 0, 0]))) \<and>
   strings_nul_free ex_fields
     (values_of (state_of (setattr \<lparr>cls = ex_layout, values_of = default_values ex_fields\<rparr>
                             (Some ''id'') (VBytes [65, 0, 66]))))"
proof -
  let ?r = "\<lparr>cls = ex_layout, values_of = default_values ex_fields\<rparr>"
  have h: "compile ''Thing'' ex_fields = Inr ex_layout" "wf_fields ex_fields"
    by code_simp+
  have d: "defaults_nul_free ex_fields" by code_simp
  have i: "cls ?r = ex_layout \<and> strings_nul_free ex_fields (values_of ?r)" by code_simp
  have v: "init ex_layout [VStr [65, 0, 66], VInt 5] []
     = Ok \<lparr>cls = ex_layout,
           values_of = [(Some ''id'', VStr (str_of ''A'')), (Some ''count'', VInt 5), (None, VNone)]\<rparr>"
    by code_simp
  from strings_stay_nul_free [OF h, of "[VStr [65, 0, 66], VInt 5]" "[]"
      ?r "Some ''id''" "VBytes [65, 0, 66]" "[65, 0, 66, 0, 5, 0, 0, 0]"] d i v
  show ?thesis by blast
qed

section \<open>Packing and unpacking one value\<close>

lemma le_int_le_bytes: "le_int (le_bytes w i) = i mod 256 ^ w"
proof (induction w arbitrary: i)
  case 0
  then show ?case by simp
next
  case (Suc w)
  have "uint (word_of_int i :: byte) = i mod 256"
    by (simp add: uint_word_of_int)
  with Suc [of "i div 256"] show ?case
    by (simp add: zmod_zmult2_eq)
qed

lemma pow_split: "0 < w \<Longrightarrow> (2::int) ^ (8 * w) = 2 * 2 ^ (8 * w - 1)"
proof -
  assume "0 < w"
  then have "8 * w = Suc (8 * w - 1)" by simp
  then show ?thesis by (metis power_Suc)
qed

lemma decode_int_le_bytes:
  assumes "0 < w" "int_min sg w \<le> i" "i \<le> int_max sg w"
  shows "decode_int sg (le_bytes w i) = i"
proof -
  have p: "(256::int) ^ w = 2 ^ (8 * w)"
    by (simp add: power_mult)
  note h = pow_split [OF assms(1)]
  show ?thesis
  proof (cases sg)
    case False
    with assms have "0 \<le> i" "i < 2 ^ (8 * w)" by (simp_all add: int_min_def int_max_def)
    then have "i mod 2 ^ (8 * w) = i" by simp
    with False show ?thesis by (simp add: decode_int_def le_int_le_bytes p)
  next
    case True
    with assms have r: "- (2 ^ (8 * w - 1)) \<le> i" "i < 2 ^ (8 * w - 1)"
      by (simp_all add: int_min_def int_max_def)
    show ?thesis
    proof (cases "0 \<le> i")
      case True
      with r h have "i mod 2 ^ (8 * w) = i" by simp
      with r \<open>sg\<close> show ?thesis by (simp add: decode_int_def le_int_le_bytes p)
    next
      case False
      have "i mod 2 ^ (8 * w) = (i + 2 ^ (8 * w)) mod 2 ^ (8 * w)" by simp
      also have "\<dots> = i + 2 ^ (8 * w)"
        using r h False by (intro mod_pos_pos_trivial) auto
      finally have "i mod 2 ^ (8 * w) = i + 2 ^ (8 * w)" .
      with r h \<open>sg\<close> False show ?thesis
        by (simp add: decode_int_def le_int_le_bytes p)
    qed
  qed
qed

lemma pack_s_zpad:
  "length s \<le> 8 \<Longrightarrow> length s \<le> n \<Longrightarrow>
   \<exists>k. pack_s n (pack_s 8 (map byte_of_char s)) = map byte_of_char s @ replicate k 0"
proof -
  assume l: "length s \<le> 8" "length s \<le> n"
  then have "pack_s n (pack_s 8 (map byte_of_char s))
      = map byte_of_char s @ replicate (min (n - length s) (8 - length s)) 0 @ replicate (n - 8) 0"
    by (simp add: pack_s_def min_def)
  then show ?thesis by (metis replicate_add)
qed

lemma entry_int_width: "entry ch = Some (KInt sg w) \<Longrightarrow> 0 < w"
  by (simp add: entry_def split: if_splits)

lemma scan_int_width:
  assumes "scan st c = Inr its" "(n, KInt sg w) \<in> set its"
  shows "0 < w"
proof -
  from assms have "KInt sg w \<in> set (List.map_filter entry c)"
    using scan_kinds [OF assms(1)] by (metis image_eqI set_map snd_conv)
  then obtain ch where "entry ch = Some (KInt sg w)"
    by (auto simp: List.map_filter_def)
  then show ?thesis by (rule entry_int_width)
qed

lemma getattr_Some: "getattr r n = Inr v \<Longrightarrow> map_of (values_of r) n = Some v"
  by (auto simp: getattr_def get_prop_def split: option.splits dest: prop_of_Some)

section \<open>The round trip\<close>

lemma pack_args_filler:
  "ftype g = Some c \<Longrightarrow> \<not> is_string g \<Longrightarrow> fname g \<notin> set (keys (cls r)) \<Longrightarrow>
   pack_args r (g # gs) = pack_args r gs"
  by (simp add: is_string_def)

lemma pack_args_string:
  "is_string g \<Longrightarrow>
   pack_args r (g # gs) =
     and_then (getattr r (fname g))
       (\<lambda>v. and_then (zpad v) (\<lambda>b. and_then (pack_args r gs) (\<lambda>vs. Inr (VBytes b # vs))))"
  by (simp add: is_string_def)

lemma pack_args_value:
  "ftype g = Some c \<Longrightarrow> \<not> is_string g \<Longrightarrow> fname g \<in> set (keys (cls r)) \<Longrightarrow>
   pack_args r (g # gs) =
     and_then (getattr r (fname g)) (\<lambda>v. and_then (pack_args r gs) (\<lambda>vs. Inr (v # vs)))"
  by (simp add: is_string_def)

lemma fits_VStr:
  "fits g d \<Longrightarrow> \<exists>s. map_of d (fname g) = Some (VStr s) \<and> is_ascii s \<and> NUL \<notin> set s \<and>
     length s \<le> 8 \<and> length s \<le> usize (funit g)"
  by (auto simp: fits_def split: option.splits pyval.splits)

lemma pack_unit_int:
  "pack_unit (UInt sg w) v = Inr b \<Longrightarrow>
   \<exists>i. v = VInt i \<and> int_min sg w \<le> i \<and> i \<le> int_max sg w \<and> b = le_bytes w i"
  by (cases v) (auto split: if_splits)

lemma set_value_plain:
  "ftype g = Some c \<Longrightarrow> \<not> is_string g \<Longrightarrow> set_value g v = Inr v"
  by (simp add: set_value_def is_string_def)

lemma set_value_string:
  "is_string g \<Longrightarrow> set_value g v = zstrip v"
  by (cases "ftype g") (simp_all add: set_value_def is_string_def)

lemma pack_unpack_fields:
  "list_all wf_field gs \<Longrightarrow>
   \<forall>g\<in>set gs. (fname g \<in> set (keys (cls r))) = (\<not> is_filler g) \<Longrightarrow>
   strings_fit gs (values_of r) \<Longrightarrow>
   pack_args r gs = Inr args \<Longrightarrow> pack_units (map funit gs) args = Inr bs \<Longrightarrow>
   \<exists>vals. unpack_units (map funit gs) bs = Inr vals \<and>
     list_all2 (\<lambda>g v. \<exists>w. set_value g v = Inr w \<and> map_of (values_of r) (fname g) = Some w)
       (stored_fields gs) vals"
proof (induction gs arbitrary: args bs)
  case Nil
  then show ?case by (simp add: stored_fields_def)
next
  case (Cons g gs)
  from Cons.prems(1) have wf: "wf_field g" and wfs: "list_all wf_field gs" by simp_all
  from Cons.prems(2) have key: "(fname g \<in> set (keys (cls r))) = (\<not> is_filler g)"
    and keys: "\<forall>g\<in>set gs. (fname g \<in> set (keys (cls r))) = (\<not> is_filler g)" by simp_all
  from Cons.prems(3) have fit: "is_string g \<longrightarrow> fits g (values_of r)"
    and fits: "strings_fit gs (values_of r)" by (simp_all add: strings_fit_def)
  from wf show ?case
  proof (cases rule: wf_field_cases)
    case (pad c n)
    with key have eq: "pack_args r (g # gs) = pack_args r gs"
      by (intro pack_args_filler) simp_all
    from Cons.prems(4) have pa: "pack_args r gs = Inr args" unfolding eq .
    from Cons.prems(5) pad obtain bs' where pu: "pack_units (map funit gs) args = Inr bs'"
      and bs: "bs = replicate n 0 @ bs'"
      by (auto simp: and_then_Inr_iff)
    from Cons.IH [OF wfs keys fits pa pu] obtain vals
      where "unpack_units (map funit gs) bs' = Inr vals"
        "list_all2 (\<lambda>g v. \<exists>w. set_value g v = Inr w \<and> map_of (values_of r) (fname g) = Some w)
           (stored_fields gs) vals" by blast
    with pad bs show ?thesis by (auto simp: stored_fields_def)
  next
    case (str c n a)
    have eq: "pack_args r (g # gs) =
        and_then (getattr r (fname g))
          (\<lambda>v. and_then (zpad v) (\<lambda>b. and_then (pack_args r gs) (\<lambda>vs. Inr (VBytes b # vs))))"
      by (rule pack_args_string [OF str(4)])
    from Cons.prems(4) have "and_then (getattr r (fname g))
          (\<lambda>v. and_then (zpad v) (\<lambda>b. and_then (pack_args r gs) (\<lambda>vs. Inr (VBytes b # vs))))
        = Inr args"
      unfolding eq .
    then obtain v b args' where ga: "getattr r (fname g) = Inr v"
      and zp: "zpad v = Inr b" and pa: "pack_args r gs = Inr args'"
      and args: "args = VBytes b # args'"
      by (auto simp: and_then_Inr_iff)
    from fit str fits_VStr obtain s where s: "map_of (values_of r) (fname g) = Some (VStr s)"
      "is_ascii s" "NUL \<notin> set s" "length s \<le> 8" "length s \<le> n"
      by fastforce
    from ga s(1) have v: "v = VStr s" by (auto dest: getattr_Some)
    with zp ascii_latin1 [OF s(2)] have b: "b = pack_s 8 (map byte_of_char s)"
      by (simp add: zpad_def)
    from Cons.prems(5) str args obtain bs' where pu: "pack_units (map funit gs) args' = Inr bs'"
      and bs: "bs = pack_s n b @ bs'"
      by (auto simp: and_then_Inr_iff)
    from pack_s_zpad [OF s(4,5)] obtain k
      where k: "pack_s n b = map byte_of_char s @ replicate k 0" by (auto simp: b)
    have sv: "set_value g (VBytes (pack_s n b)) = Inr (VStr s)"
      using zstrip_padded [OF s(2,3), of k] by (simp add: set_value_string [OF str(4)] k)
    from Cons.IH [OF wfs keys fits pa pu] obtain vals
      where vals: "unpack_units (map funit gs) bs' = Inr vals"
        "list_all2 (\<lambda>g v. \<exists>w. set_value g v = Inr w \<and> map_of (values_of r) (fname g) = Some w)
           (stored_fields gs) vals" by blast
    have un: "unpack_units (map funit (g # gs)) bs = Inr (VBytes (pack_s n b) # vals)"
      using vals(1) str(5) by (simp add: bs)
    have sf: "stored_fields (g # gs) = g # stored_fields gs"
      using str(3) by (simp add: stored_fields_def)
    from un sv s(1) vals(2) show ?thesis
      by (intro exI [of _ "VBytes (pack_s n b) # vals"]) (simp add: sf)
  next
    case (int c sg w a)
    with key have eq: "pack_args r (g # gs) =
        and_then (getattr r (fname g)) (\<lambda>v. and_then (pack_args r gs) (\<lambda>vs. Inr (v # vs)))"
      by (intro pack_args_value) simp_all
    from Cons.prems(4) have "and_then (getattr r (fname g))
        (\<lambda>v. and_then (pack_args r gs) (\<lambda>vs. Inr (v # vs))) = Inr args"
      unfolding eq .
    then obtain v args' where ga: "getattr r (fname g) = Inr v"
      and pa: "pack_args r gs = Inr args'" and args: "args = v # args'"
      by (auto simp: and_then_Inr_iff)
    from Cons.prems(5) int args obtain b bs' where pk: "pack_unit (UInt sg w) v = Inr b"
      and pu: "pack_units (map funit gs) args' = Inr bs'" and bs: "bs = b @ bs'"
      by (auto simp: and_then_Inr_iff)
    from pack_unit_int [OF pk] obtain i where i: "v = VInt i" "int_min sg w \<le> i"
      "i \<le> int_max sg w" "b = le_bytes w i" by blast
    have w: "0 < w" using scan_int_width [OF int(2)] by simp
    have dec: "decode_int sg (le_bytes w i) = i"
      by (rule decode_int_le_bytes [OF w i(2,3)])
    from Cons.IH [OF wfs keys fits pa pu] obtain vals
      where vals: "unpack_units (map funit gs) bs' = Inr vals"
        "list_all2 (\<lambda>g v. \<exists>w. set_value g v = Inr w \<and> map_of (values_of r) (fname g) = Some w)
           (stored_fields gs) vals" by blast
    have un: "unpack_units (map funit (g # gs)) bs = Inr (VInt i # vals)"
      using vals(1) int(5) dec by (simp add: bs i(4))
    have sv: "set_value g (VInt i) = Inr (VInt i)"
      using int(1,4) by (rule set_value_plain)
    have mv: "map_of (values_of r) (fname g) = Some (VInt i)"
      using ga i(1) by (auto dest: getattr_Some)
    have sf: "stored_fields (g # gs) = g # stored_fields gs"
      using int(3) by (simp add: stored_fields_def)
    from un sv mv vals(2) show ?thesis
      by (intro exI [of _ "VInt i # vals"]) (simp add: sf)
  qed
qed

lemma set_all_same:
  assumes wf: "wf_fields fs" and r: "fields_of (cls r) = fs"
  shows "set gs \<subseteq> set (stored_fields fs) \<Longrightarrow>
    list_all2 (\<lambda>g v. \<exists>w. set_value g v = Inr w \<and> map_of (values_of r) (fname g) = Some w) gs vals \<Longrightarrow>
    set_all r (zip (map fname gs) vals) = Ok r"
proof (induction gs arbitrary: vals)
  case Nil
  then show ?case by simp
next
  case (Cons g gs)
  from Cons.prems(2) obtain v vs w where vals: "vals = v # vs"
    and w: "set_value g v = Inr w" "map_of (values_of r) (fname g) = Some w"
    and rest: "list_all2 (\<lambda>g v. \<exists>w. set_value g v = Inr w \<and>
        map_of (values_of r) (fname g) = Some w) gs vs"
    by (auto simp: list_all2_Cons1)
  from Cons.prems(1) have g: "g \<in> set (stored_fields fs)" and gs: "set gs \<subseteq> set (stored_fields fs)"
    by simp_all
  have "AList.update (fname g) w (values_of r) = values_of r"
    using w(2) by (rule update_triv)
  then have "setattr r (fname g) v = Ok r"
    by (simp add: setattr_stored [OF wf r g] set_prop_def w(1))
  with Cons.IH [OF gs rest] show ?case by (simp add: vals)
qed

lemma keys_iff_stored:
  assumes c: "compile nm fs = Inr L" and wf: "wf_fields fs" and g: "g \<in> set fs"
  shows "(fname g \<in> set (keys L)) = (\<not> is_filler g)"
proof (cases "is_filler g")
  case True
  with filler_not_key [OF c wf g] show ?thesis by simp
next
  case False
  with g have "g \<in> set (stored_fields fs)" by (simp add: stored_fields_def)
  with False show ?thesis by (simp add: compile_wf(2) [OF c wf])
qed

text \<open>
  C1 as the spec states it: for every instance, unpacking the packed bytes gives the stored
  fields back. A string longer than the declared width of its field is cut by \<open>pack\<close>: the
  instance of the example type with \<^verbatim>\<open>id = 'TOOLONGNAME'\<close> packs to 8 bytes, and \<open>unpack\<close> of
  these bytes sets \<^verbatim>\<open>id\<close> to \<^verbatim>\<open>'TOOL'\<close>.
\<close>

theorem roundtrip_counterexample:
  "init ex_layout [] [(''id'', VStr (str_of ''TOOLONGNAME'')), (''count'', VInt 5)]
     = Ok \<lparr>cls = ex_layout,
           values_of = [(Some ''id'', VStr (str_of ''TOOLONGNAME'')), (Some ''count'', VInt 5), (None, VNone)]\<rparr> \<and>
   pack \<lparr>cls = ex_layout,
         values_of = [(Some ''id'', VStr (str_of ''TOOLONGNAME'')), (Some ''count'', VInt 5), (None, VNone)]\<rparr>
     = Inr [84, 79, 79, 76, 5, 0, 0, 0] \<and>
   unpack \<lparr>cls = ex_layout,
           values_of = [(Some ''id'', VStr (str_of ''TOOLONGNAME'')), (Some ''count'', VInt 5), (None, VNone)]\<rparr>
          [84, 79, 79, 76, 5, 0, 0, 0]
     = Ok \<lparr>cls = ex_layout,
           values_of = [(Some ''id'', VStr (str_of ''TOOL'')), (Some ''count'', VInt 5), (None, VNone)]\<rparr> \<and>
   VStr (str_of ''TOOL'') \<noteq> VStr (str_of ''TOOLONGNAME'')"
  by code_simp

text \<open>
  C1, amended: let \<open>r\<close> be an instance of a type compiled from a field list of the data model
  in which every string-typed field holds an ASCII string without NUL, no longer than 8
  characters and than the declared width of the field. If \<open>pack\<close> of \<open>r\<close> returns bytes, then
  \<open>unpack\<close> of these bytes into \<open>r\<close> succeeds and leaves \<open>r\<close> as it was, and \<open>unpack\<close> of them
  into any instance of the type succeeds and gives every key the value it has in \<open>r\<close>,
  leaving every entry outside the keys as it was.
\<close>

theorem pack_unpack_roundtrip:
  "compile nm fs = Inr L \<Longrightarrow> wf_fields fs \<Longrightarrow> cls r = L \<Longrightarrow>
   strings_fit fs (values_of r) \<Longrightarrow> pack r = Inr bs \<Longrightarrow>
   unpack r bs = Ok r \<and>
   (cls r0 = L \<longrightarrow>
      (\<exists>r'. unpack r0 bs = Ok r' \<and> cls r' = L \<and>
         (\<forall>k\<in>set (keys L). map_of (values_of r') k = map_of (values_of r) k) \<and>
         (\<forall>n. n \<notin> set (keys L) \<longrightarrow> map_of (values_of r') n = map_of (values_of r0) n)))"
proof -
  assume c: "compile nm fs = Inr L" and wf: "wf_fields fs" and r: "cls r = L"
    and fit: "strings_fit fs (values_of r)" and pk: "pack r = Inr bs"
  let ?sf = "stored_fields fs"
  let ?P = "\<lambda>g v. \<exists>w. set_value g v = Inr w \<and> map_of (values_of r) (fname g) = Some w"
  note cw = compile_wf [OF c wf]
  from wf have wfl: "list_all wf_field fs" and dist: "distinct (map fname ?sf)"
    by (simp_all add: wf_fields_def)
  from pk r cw obtain args where pa: "pack_args r fs = Inr args"
    and pu: "pack_units (map funit fs) args = Inr bs"
    by (auto simp: pack_def struct_pack_def and_then_Inr_iff split: if_splits)
  have ks: "\<forall>g\<in>set fs. (fname g \<in> set (keys (cls r))) = (\<not> is_filler g)"
    using keys_iff_stored [OF c wf] r by simp
  from pack_unpack_fields [OF wfl ks fit pa pu] obtain vals
    where un: "unpack_units (map funit fs) bs = Inr vals" and P: "list_all2 ?P ?sf vals"
    by blast
  have len: "length bs = size_of L"
    using pack_units_length [OF pu] cw(3) by (simp add: size_of_def struct_size_def)
  then have su: "struct_unpack (struct L) bs = Inr vals"
    using un cw(3) by (simp add: struct_unpack_def size_of_def)
  have same: "unpack r bs = Ok r"
    using set_all_same [OF wf _ subset_refl P] su r cw(1,2) by (simp add: unpack_def)
  have other: "cls r0 = L \<longrightarrow>
      (\<exists>r'. unpack r0 bs = Ok r' \<and> cls r' = L \<and>
         (\<forall>k\<in>set (keys L). map_of (values_of r') k = map_of (values_of r) k) \<and>
         (\<forall>n. n \<notin> set (keys L) \<longrightarrow> map_of (values_of r') n = map_of (values_of r0) n))"
  proof
    assume r0: "cls r0 = L"
    have sv: "list_all2 (\<lambda>g v. \<exists>w. set_value g v = Inr w) ?sf vals"
      by (rule list_all2_mono [OF P]) blast
    have f0: "fields_of (cls r0) = fs" using r0 cw(1) by simp
    from set_all_stored [OF wf f0 subset_refl dist sv]
    obtain r' where r': "set_all r0 (zip (map fname ?sf) vals) = Ok r'" "cls r' = cls r0"
      "\<forall>i<length ?sf. \<exists>w. set_value (?sf ! i) (vals ! i) = Inr w \<and>
         map_of (values_of r') (fname (?sf ! i)) = Some w"
      "\<forall>n. n \<notin> set (map fname ?sf) \<longrightarrow> map_of (values_of r') n = map_of (values_of r0) n"
      by blast
    have run: "unpack r0 bs = Ok r'"
      using su r'(1) r0 cw(2) by (simp add: unpack_def)
    have agree: "\<forall>k\<in>set (keys L). map_of (values_of r') k = map_of (values_of r) k"
    proof
      fix k assume "k \<in> set (keys L)"
      then obtain i where i: "i < length ?sf" "k = fname (?sf ! i)"
        by (auto simp: cw(2) in_set_conv_nth)
      from list_all2_nthD [OF P i(1)] obtain w where w: "set_value (?sf ! i) (vals ! i) = Inr w"
        "map_of (values_of r) (fname (?sf ! i)) = Some w" by blast
      from r'(3) i(1) obtain w' where w': "set_value (?sf ! i) (vals ! i) = Inr w'"
        "map_of (values_of r') (fname (?sf ! i)) = Some w'" by blast
      from w w' i(2) show "map_of (values_of r') k = map_of (values_of r) k" by simp
    qed
    from run r'(2,4) r0 agree cw(2) show "\<exists>r'. unpack r0 bs = Ok r' \<and> cls r' = L \<and>
         (\<forall>k\<in>set (keys L). map_of (values_of r') k = map_of (values_of r) k) \<and>
         (\<forall>n. n \<notin> set (keys L) \<longrightarrow> map_of (values_of r') n = map_of (values_of r0) n)"
      by (intro exI [of _ r'] conjI) simp_all
  qed
  from same other show ?thesis by simp
qed

theorem pack_unpack_roundtrip_witness:
  "pack \<lparr>cls = ex_layout,
         values_of = [(Some ''id'', VStr (str_of ''AB'')), (Some ''count'', VInt (- 2)), (None, VNone)]\<rparr>
     = Inr [65, 66, 0, 0, 254, 255, 0, 0] \<and>
   unpack \<lparr>cls = ex_layout,
           values_of = [(Some ''id'', VStr (str_of ''AB'')), (Some ''count'', VInt (- 2)), (None, VNone)]\<rparr>
          [65, 66, 0, 0, 254, 255, 0, 0]
     = Ok \<lparr>cls = ex_layout,
           values_of = [(Some ''id'', VStr (str_of ''AB'')), (Some ''count'', VInt (- 2)), (None, VNone)]\<rparr> \<and>
   (\<exists>r'. unpack \<lparr>cls = ex_layout, values_of = default_values ex_fields\<rparr>
             [65, 66, 0, 0, 254, 255, 0, 0] = Ok r' \<and> cls r' = ex_layout \<and>
      map_of (values_of r') (Some ''id'') = Some (VStr (str_of ''AB'')) \<and>
      map_of (values_of r') (Some ''count'') = Some (VInt (- 2)))"
proof -
  let ?r = "\<lparr>cls = ex_layout,
         values_of = [(Some ''id'', VStr (str_of ''AB'')), (Some ''count'', VInt (- 2)), (None, VNone)]\<rparr>"
  let ?dflt = "\<lparr>cls = ex_layout, values_of = default_values ex_fields\<rparr>"
  let ?bs = "[65, 66, 0, 0, 254, 255, 0, 0] :: byte list"
  have h1: "compile ''Thing'' ex_fields = Inr ex_layout" by code_simp
  have h2: "wf_fields ex_fields" by code_simp
  have h3: "cls ?r = ex_layout" by simp
  have h4: "strings_fit ex_fields (values_of ?r)" by code_simp
  have h5: "pack ?r = Inr ?bs" by code_simp
  note h = h1 h2 h3 h4 h5
  have r0: "cls ?dflt = ex_layout" by simp
  have k: "Some ''id'' \<in> set (keys ex_layout)" "Some ''count'' \<in> set (keys ex_layout)"
    by code_simp+
  have v: "map_of (values_of ?r) (Some ''id'') = Some (VStr (str_of ''AB''))"
    "map_of (values_of ?r) (Some ''count'') = Some (VInt (- 2))"
    by code_simp+
  from pack_unpack_roundtrip [OF h, of ?dflt] r0
  have a: "unpack ?r ?bs = Ok ?r"
    and "\<exists>r'. unpack ?dflt ?bs = Ok r' \<and> cls r' = ex_layout \<and>
         (\<forall>k\<in>set (keys ex_layout). map_of (values_of r') k = map_of (values_of ?r) k) \<and>
         (\<forall>n. n \<notin> set (keys ex_layout) \<longrightarrow> map_of (values_of r') n = map_of (values_of ?dflt) n)"
    by blast+
  then obtain r' where r': "unpack ?dflt ?bs = Ok r'" "cls r' = ex_layout"
    "\<forall>k\<in>set (keys ex_layout). map_of (values_of r') k = map_of (values_of ?r) k"
    by blast
  from r'(3) k v have "map_of (values_of r') (Some ''id'') = Some (VStr (str_of ''AB''))"
    "map_of (values_of r') (Some ''count'') = Some (VInt (- 2))"
    by metis+
  with r'(1,2) a h(5) show ?thesis by blast
qed

section \<open>Equality of constructed instances\<close>

lemma keys_dict_of: "fst ` set (dict_of kvs) = fst ` set kvs"
proof -
  have "dom (map_of (dict_of kvs)) = dom (map_of (rev kvs))"
    by (simp add: map_of_dict_of)
  then show ?thesis by (simp add: dom_map_of_conv_image_fst)
qed

lemma keys_default: "fst ` set (default_values fs) = fname ` set fs"
  by (simp add: default_values_def keys_dict_of image_image)

lemma distinct_default: "distinct (map fst (default_values fs))"
  unfolding default_values_def dict_of_def by (rule distinct_dict_update) simp

lemma setattr_keys:
  assumes "fname ` set (fields_of (cls r)) \<subseteq> fst ` set (values_of r)"
  shows "map fst (values_of (state_of (setattr r k v))) = map fst (values_of r)"
proof (cases "prop_of (fields_of (cls r)) k")
  case None
  then show ?thesis by (simp add: setattr_no_prop)
next
  case (Some f)
  from prop_of_Some [OF Some] assms have "fname f \<in> fst ` set (values_of r)" by auto
  then have "\<And>w. map fst (AList.update (fname f) w (values_of r)) = map fst (values_of r)"
    by (simp add: update_keys)
  with Some show ?thesis
    by (cases k; cases "set_value f v") (simp_all add: setattr_def set_prop_def)
qed

lemma set_all_keys:
  "fname ` set (fields_of (cls r)) \<subseteq> fst ` set (values_of r) \<Longrightarrow>
   map fst (values_of (state_of (set_all r kvs))) = map fst (values_of r)"
proof (induction kvs arbitrary: r)
  case Nil
  then show ?case by simp
next
  case (Cons kv kvs)
  obtain k v where kv: "kv = (k, v)" by (cases kv)
  have k1: "map fst (values_of (state_of (setattr r k v))) = map fst (values_of r)"
    by (rule setattr_keys [OF Cons.prems])
  show ?case
  proof (cases "setattr r k v")
    case (Ok r1)
    with k1 setattr_cls [of r k v] have "map fst (values_of r1) = map fst (values_of r)"
      "cls r1 = cls r" by simp_all
    moreover from this Cons.prems
    have "fname ` set (fields_of (cls r1)) \<subseteq> fst ` set (values_of r1)"
      by (metis set_map)
    ultimately show ?thesis using Cons.IH [of r1] Ok by (simp add: kv)
  next
    case (Raised e r1)
    with k1 show ?thesis by (simp add: kv)
  qed
qed

lemma unpack_keys:
  "fname ` set (fields_of (cls r)) \<subseteq> fst ` set (values_of r) \<Longrightarrow>
   map fst (values_of (state_of (unpack r data))) = map fst (values_of r)"
  by (cases "struct_unpack (struct (cls r)) data") (simp_all add: unpack_def set_all_keys)

lemma unpack_cls: "cls (state_of (unpack r data)) = cls r"
  by (cases "struct_unpack (struct (cls r)) data") (simp_all add: unpack_def set_all_cls)

lemma init_keys:
  "map fst (values_of (state_of (init L args kwargs))) = map fst (default_values (fields_of L))"
proof -
  let ?new = "\<lparr>cls = L, values_of = default_values (fields_of L)\<rparr>"
  have sub: "fname ` set (fields_of (cls ?new)) \<subseteq> fst ` set (values_of ?new)"
    by (simp add: keys_default)
  show ?thesis
  proof (cases "map_of kwargs ''bytes''")
    case None
    with set_all_keys [OF sub] show ?thesis by (simp add: init_def)
  next
    case (Some b)
    with unpack_keys [OF sub] show ?thesis by (cases b) (simp_all add: init_def)
  qed
qed

lemma init_cls: "cls (state_of (init L args kwargs)) = L"
proof (cases "map_of kwargs ''bytes''")
  case None
  then show ?thesis by (simp add: init_def set_all_cls)
next
  case (Some b)
  then show ?thesis by (cases b) (simp_all add: init_def unpack_cls)
qed

lemma dict_eq_iff:
  assumes d: "distinct (map fst a)" and k: "map fst a = map fst b"
  shows "dict_eq a b \<longleftrightarrow> (\<forall>n\<in>fst ` set a. map_of a n = map_of b n)"
proof -
  have len: "length a = length b" using k by (metis length_map)
  have "list_all (\<lambda>(n, v). map_of b n = Some v) a
      \<longleftrightarrow> (\<forall>n\<in>fst ` set a. map_of a n = map_of b n)"
  proof
    assume l: "list_all (\<lambda>(n, v). map_of b n = Some v) a"
    show "\<forall>n\<in>fst ` set a. map_of a n = map_of b n"
    proof
      fix n assume "n \<in> fst ` set a"
      then obtain v where nv: "(n, v) \<in> set a" by auto
      with l have "map_of b n = Some v" by (auto simp: list_all_iff)
      moreover from nv d have "map_of a n = Some v" by simp
      ultimately show "map_of a n = map_of b n" by simp
    qed
  next
    assume r: "\<forall>n\<in>fst ` set a. map_of a n = map_of b n"
    show "list_all (\<lambda>(n, v). map_of b n = Some v) a"
      unfolding list_all_iff
    proof (intro ballI, clarify)
      fix n v assume nv: "(n, v) \<in> set a"
      with d have "map_of a n = Some v" by simp
      moreover from nv have "n \<in> fst ` set a" by force
      ultimately show "map_of b n = Some v" using r by auto
    qed
  qed
  with len show ?thesis by (simp add: dict_eq_def)
qed

lemma eq_constructed:
  "eq_inst (state_of (init L args kwargs)) (state_of (init L args' kwargs')) \<longleftrightarrow>
   (\<forall>k\<in>set (keys L). map_of (values_of (state_of (init L args kwargs))) k =
                       map_of (values_of (state_of (init L args' kwargs'))) k)"
proof -
  let ?a = "values_of (state_of (init L args kwargs))"
  let ?b = "values_of (state_of (init L args' kwargs'))"
  have ka: "map fst ?a = map fst (default_values (fields_of L))"
    and kb: "map fst ?b = map fst (default_values (fields_of L))"
    by (rule init_keys)+
  have d: "distinct (map fst ?a)" by (simp add: ka distinct_default)
  have off: "\<And>n. n \<notin> set (keys L) \<Longrightarrow> map_of ?a n = map_of ?b n"
    by (simp add: init_frame)
  have dom: "\<And>n. n \<notin> fst ` set ?a \<Longrightarrow> map_of ?a n = map_of ?b n"
  proof -
    fix n assume n: "n \<notin> fst ` set ?a"
    then have "n \<notin> fst ` set ?b" using ka kb by (metis set_map)
    with n have "map_of ?a n = None" "map_of ?b n = None"
      by (simp_all only: map_of_eq_None_iff not_False_eq_True)
    then show "map_of ?a n = map_of ?b n" by simp
  qed
  have "dict_eq ?a ?b \<longleftrightarrow> (\<forall>n\<in>fst ` set ?a. map_of ?a n = map_of ?b n)"
    by (rule dict_eq_iff [OF d]) (simp add: ka kb)
  also have "\<dots> \<longleftrightarrow> (\<forall>n. map_of ?a n = map_of ?b n)"
    using dom by blast
  also have "\<dots> \<longleftrightarrow> (\<forall>k\<in>set (keys L). map_of ?a k = map_of ?b k)"
    using off by blast
  finally show ?thesis by (simp add: eq_inst_def init_cls)
qed

section \<open>Filler fields\<close>

lemma str_entries_all:
  "str_entries d fs = Inr es \<Longrightarrow>
   length es = length fs \<and>
   (\<forall>j<length fs. \<exists>v. map_of d (fname (fs ! j)) = Some v \<and>
      es ! j = name_str (fname (fs ! j)) @ str_of ''='' @ py_str v)"
proof (induction fs arbitrary: es)
  case Nil
  then show ?case by simp
next
  case (Cons f fs)
  from Cons.prems obtain v es' where v: "map_of d (fname f) = Some v"
    and es': "str_entries d fs = Inr es'"
    and es: "es = (name_str (fname f) @ str_of ''='' @ py_str v) # es'"
    by (auto simp: and_then_Inr_iff split: option.splits)
  from Cons.IH [OF es'] have len: "length es' = length fs"
    and ih: "\<forall>j<length fs. \<exists>v. map_of d (fname (fs ! j)) = Some v \<and>
      es' ! j = name_str (fname (fs ! j)) @ str_of ''='' @ py_str v"
    by simp_all
  have "\<forall>j<length (f # fs). \<exists>v. map_of d (fname ((f # fs) ! j)) = Some v \<and>
      es ! j = name_str (fname ((f # fs) ! j)) @ str_of ''='' @ py_str v"
  proof (intro allI impI)
    fix j assume "j < length (f # fs)"
    then show "\<exists>v. map_of d (fname ((f # fs) ! j)) = Some v \<and>
      es ! j = name_str (fname ((f # fs) ! j)) @ str_of ''='' @ py_str v"
      using v ih by (cases j) (auto simp: es)
  qed
  with len show ?case by (simp add: es)
qed

text \<open>
  C3 as the spec states it: a filler field never appears in the textual form. The example
  type has a filler of two pad bytes, named \<^verbatim>\<open>None\<close> with default \<^verbatim>\<open>None\<close>; the instance
  built from \<^verbatim>\<open>('AB', 5)\<close> keeps an entry for it in its value mapping, and \<^verbatim>\<open>__str__\<close>, which
  goes through all of \<^verbatim>\<open>__fields__\<close>, prints it.
\<close>

theorem filler_in_str_counterexample:
  "is_filler \<lparr>fname = None, ftype = Some ''2x'', fdefault = VNone\<rparr> \<and>
   \<lparr>fname = None, ftype = Some ''2x'', fdefault = VNone\<rparr> \<in> set ex_fields \<and>
   compile ''Thing'' ex_fields = Inr ex_layout \<and>
   init ex_layout [VStr (str_of ''AB''), VInt 5] []
     = Ok \<lparr>cls = ex_layout,
           values_of = [(Some ''id'', VStr (str_of ''AB'')), (Some ''count'', VInt 5), (None, VNone)]\<rparr> \<and>
   str_inst \<lparr>cls = ex_layout,
             values_of = [(Some ''id'', VStr (str_of ''AB'')), (Some ''count'', VInt 5), (None, VNone)]\<rparr>
     = Inr (str_of ''id=AB, count=5, None=None'')"
  by code_simp

text \<open>
  C3, amended: in a type compiled from a field list of the data model, a filler field
  reserves its pad bytes in the size of the packed form; its name is not among the keys, so
  it takes no positional argument and has no property: assigning to its name, the
  constructor (with any positional and keyword arguments) and \<open>unpack\<close> all leave its entry
  of the value mapping as it was, which after construction is the declared default, the
  same in all instances: two constructed instances are equal exactly when they agree on
  the keys. The entry exists, though, and the textual form has one \<^verbatim>\<open>name=value\<close> item for
  every declared field, the filler included.
\<close>

theorem filler_field:
  "compile nm fs = Inr L \<Longrightarrow> wf_fields fs \<Longrightarrow> f \<in> set fs \<Longrightarrow> is_filler f \<Longrightarrow>
   (\<exists>n. funit f = UPad n) \<and>
   size_of L = sum_list (map (\<lambda>g. usize (funit g)) fs) \<and>
   fname f \<notin> set (keys L) \<and>
   (cls r = L \<longrightarrow> state_of (setattr r (fname f) v) = r) \<and>
   (cls r = L \<longrightarrow>
      map_of (values_of (state_of (unpack r data))) (fname f) = map_of (values_of r) (fname f)) \<and>
   map_of (values_of (state_of (init L args kwargs))) (fname f)
     = map_of (default_values fs) (fname f) \<and>
   map_of (values_of (state_of (init L args kwargs))) (fname f)
     = map_of (values_of (state_of (init L args' kwargs'))) (fname f) \<and>
   (eq_inst (state_of (init L args kwargs)) (state_of (init L args' kwargs')) \<longleftrightarrow>
      (\<forall>k\<in>set (keys L). map_of (values_of (state_of (init L args kwargs))) k =
                          map_of (values_of (state_of (init L args' kwargs'))) k)) \<and>
   (\<exists>g\<in>set fs. fname g = fname f \<and> map_of (default_values fs) (fname f) = Some (fdefault g)) \<and>
   (cls r = L \<longrightarrow> str_inst r = Inr s \<longrightarrow>
      (\<exists>es. s = join (str_of '', '') es \<and> length es = length fs \<and>
         (\<forall>j<length fs. \<exists>v. map_of (values_of r) (fname (fs ! j)) = Some v \<and>
            es ! j = name_str (fname (fs ! j)) @ str_of ''='' @ py_str v)))"
proof -
  assume c: "compile nm fs = Inr L" and wf: "wf_fields fs" and f: "f \<in> set fs"
    and fl: "is_filler f"
  note cw = compile_wf [OF c wf]
  from wf f have "wf_field f" by (simp add: wf_fields_def list_all_iff)
  with fl have pad: "\<exists>n. funit f = UPad n" by (auto elim: wf_field_cases)
  have sz: "size_of L = sum_list (map (\<lambda>g. usize (funit g)) fs)"
    by (rule size_of_wf [OF c wf])
  have nk: "fname f \<notin> set (keys L)" by (rule filler_not_key [OF c wf f fl])
  have typed: "\<forall>g\<in>set fs. ftype g \<noteq> None"
    using wf wf_typed by (auto simp: wf_fields_def)
  have np: "prop_of fs (fname f) = None"
    using nk cw(2) by (intro prop_of_not_key [OF typed]) simp
  have sa: "cls r = L \<longrightarrow> state_of (setattr r (fname f) v) = r"
    using np cw(1) by (auto intro: setattr_no_prop)
  have un: "cls r = L \<longrightarrow>
      map_of (values_of (state_of (unpack r data))) (fname f) = map_of (values_of r) (fname f)"
    using nk by (auto intro: unpack_frame)
  have i1: "\<And>a k. map_of (values_of (state_of (init L a k))) (fname f)
     = map_of (default_values fs) (fname f)"
    using init_frame [OF nk] cw(1) by simp
  have st: "cls r = L \<longrightarrow> str_inst r = Inr s \<longrightarrow>
      (\<exists>es. s = join (str_of '', '') es \<and> length es = length fs \<and>
         (\<forall>j<length fs. \<exists>v. map_of (values_of r) (fname (fs ! j)) = Some v \<and>
            es ! j = name_str (fname (fs ! j)) @ str_of ''='' @ py_str v))"
    using cw(1) by (auto simp: str_inst_def and_then_Inr_iff dest!: str_entries_all)
  note eq = eq_constructed [of L args kwargs args' kwargs']
  from pad sz nk sa un i1 eq default_values_entry [OF f] st show ?thesis
    by (intro conjI) simp_all
qed

theorem filler_field_witness:
  "fname (ex_fields ! 2) \<notin> set (keys ex_layout) \<and>
   size_of ex_layout = 8 \<and>
   map_of (values_of (state_of (init ex_layout [VStr (str_of ''AB''), VInt 5, VInt 7] [(''None'', VInt 1)])))
     (fname (ex_fields ! 2)) = Some VNone"
proof -
  have h: "compile ''Thing'' ex_fields = Inr ex_layout" "wf_fields ex_fields"
    "ex_fields ! 2 \<in> set ex_fields" "is_filler (ex_fields ! 2)"
    by code_simp+
  have s: "sum_list (map (\<lambda>g. usize (funit g)) ex_fields) = 8" by code_simp
  have d: "map_of (default_values ex_fields) (fname (ex_fields ! 2)) = Some VNone" by code_simp
  from filler_field [OF h, of _ _ _ "[VStr (str_of ''AB''), VInt 5, VInt 7]" "[(''None'', VInt 1)]"] s d
  show ?thesis by simp
qed

end
